theory Spec2Isabelle
  imports Complex_Main "HOL-Library.AList"
begin

section \<open>JavaScript values used by the application\<close>

text \<open>
  Numbers produced by \<^verbatim>\<open>parseInt\<close> are either \<^verbatim>\<open>NaN\<close> or an integer.
  Characters are code units below 256.
\<close>

datatype jsnum = NaN | Num int

datatype js_error = TypeError | NotFoundError | DataError

fun isNaN :: "jsnum \<Rightarrow> bool" where
  "isNaN NaN = True"
| "isNaN (Num _) = False"

text \<open>Comparisons with \<^verbatim>\<open>NaN\<close> are false; arithmetic with \<^verbatim>\<open>NaN\<close> is \<^verbatim>\<open>NaN\<close>.\<close>

fun js_lt :: "jsnum \<Rightarrow> jsnum \<Rightarrow> bool" where
  "js_lt (Num a) (Num b) = (a < b)"
| "js_lt _ _ = False"

fun js_gt :: "jsnum \<Rightarrow> jsnum \<Rightarrow> bool" where
  "js_gt (Num a) (Num b) = (a > b)"
| "js_gt _ _ = False"

fun js_add :: "jsnum \<Rightarrow> jsnum \<Rightarrow> jsnum" where
  "js_add (Num a) (Num b) = Num (a + b)"
| "js_add _ _ = NaN"

fun js_sub :: "jsnum \<Rightarrow> jsnum \<Rightarrow> jsnum" where
  "js_sub (Num a) (Num b) = Num (a - b)"
| "js_sub _ _ = NaN"

text \<open>\<^verbatim>\<open>Number.isInteger\<close>: every non-NaN result of \<^verbatim>\<open>parseInt\<close> is integral.\<close>

fun isInteger :: "jsnum \<Rightarrow> bool" where
  "isInteger NaN = False"
| "isInteger (Num _) = True"

text \<open>\<^verbatim>\<open>x || d\<close> on a number: \<^verbatim>\<open>NaN\<close> and \<^verbatim>\<open>0\<close> are falsy.\<close>

fun num_or :: "jsnum \<Rightarrow> int \<Rightarrow> int" where
  "num_or NaN d = d"
| "num_or (Num a) d = (if a = 0 then d else a)"

definition is_space :: "char \<Rightarrow> bool" where
  "is_space c = (let n = (of_char c :: nat) in
     n = 9 \<or> n = 10 \<or> n = 11 \<or> n = 12 \<or> n = 13 \<or> n = 32 \<or> n = 160)"

definition is_digit :: "char \<Rightarrow> bool" where
  "is_digit c = (let n = (of_char c :: nat) in 48 \<le> n \<and> n \<le> 57)"

definition trim :: "string \<Rightarrow> string" where
  "trim s = rev (dropWhile is_space (rev (dropWhile is_space s)))"

definition digits_value :: "string \<Rightarrow> int" where
  "digits_value z = foldl (\<lambda>acc c. acc * 10 + (int (of_char c) - 48)) 0 z"

text \<open>
  \<^verbatim>\<open>parseInt(s, 10)\<close>: skip leading white space, read an optional sign, then the
  longest prefix of decimal digits; no digit gives \<^verbatim>\<open>NaN\<close>.
\<close>

definition parseInt :: "string \<Rightarrow> jsnum" where
  "parseInt s =
     (let s1 = dropWhile is_space s;
          sign = (case s1 of c # _ \<Rightarrow> if c = CHR ''-'' then (-1::int) else 1 | [] \<Rightarrow> 1);
          s2 = (case s1 of c # r \<Rightarrow> if c = CHR ''-'' \<or> c = CHR ''+'' then r else s1 | [] \<Rightarrow> s1);
          z = takeWhile is_digit s2
      in if z = [] then NaN else Num (sign * digits_value z))"

text \<open>\<^verbatim>\<open>Array.prototype.findIndex\<close>, with \<open>None\<close> for \<^verbatim>\<open>-1\<close>.\<close>

fun findIndex :: "('a \<Rightarrow> bool) \<Rightarrow> 'a list \<Rightarrow> nat option" where
  "findIndex P [] = None"
| "findIndex P (x # xs) = (if P x then Some 0 else map_option Suc (findIndex P xs))"

text \<open>Reading \<^verbatim>\<open>xs[i]\<close>: \<open>None\<close> is \<^verbatim>\<open>undefined\<close>.\<close>

definition at_index :: "'a list \<Rightarrow> int \<Rightarrow> 'a option" where
  "at_index xs i = (if 0 \<le> i \<and> i < int (length xs) then Some (xs ! nat i) else None)"

text \<open>\<^verbatim>\<open>Array.prototype.join\<close> on strings.\<close>

fun join :: "string \<Rightarrow> string list \<Rightarrow> string" where
  "join sep [] = []"
| "join sep [x] = x"
| "join sep (x # y # ys) = x @ sep @ join sep (y # ys)"

section \<open>Round session (app.js)\<close>

subsection \<open>Validation of a score entry\<close>

record validation_error =
  field :: string
  message :: string

record validation_result =
  isValid :: bool
  errors :: "validation_error list"

text \<open>The values of the form inputs read through \<^verbatim>\<open>document.getElementById(...).value\<close>.\<close>

record dom_inputs =
  score_throws :: string
  score_approaches :: string
  score_putts :: string
  setup_par :: string
  setup_distance :: string

text \<open>
  \<^verbatim>\<open>validateScoreEntry\<close> pushes onto one \<^verbatim>\<open>errors\<close> array in four blocks. Each
  block is a function giving the errors it pushes; \<open>validateScoreEntry\<close> appends them in
  the order of the source.
\<close>

definition throws_errors :: "jsnum \<Rightarrow> validation_error list" where
  "throws_errors throws =
     (if isNaN throws \<or> js_lt throws (Num 1)
        then [\<lparr>field = ''throws'', message = ''Throws must be at least 1''\<rparr>]
      else if js_gt throws (Num 20)
        then [\<lparr>field = ''throws'', message = ''Throws cannot exceed 20''\<rparr>]
      else if \<not> isInteger throws
        then [\<lparr>field = ''throws'', message = ''Throws must be a whole number''\<rparr>]
      else [])"

definition approaches_errors :: "string \<Rightarrow> validation_error list" where
  "approaches_errors approachesValue =
     (if approachesValue \<noteq> []
      then (let approaches = parseInt approachesValue in
        if isNaN approaches \<or> js_lt approaches (Num 0)
          then [\<lparr>field = ''approaches'', message = ''Approaches must be 0 or more''\<rparr>]
        else if js_gt approaches (Num 19)
          then [\<lparr>field = ''approaches'', message = ''Approaches cannot exceed 19''\<rparr>]
        else if \<not> isInteger approaches
          then [\<lparr>field = ''approaches'', message = ''Approaches must be a whole number''\<rparr>]
        else [])
      else [])"

definition putts_errors :: "string \<Rightarrow> validation_error list" where
  "putts_errors puttsValue =
     (if puttsValue \<noteq> []
      then (let putts = parseInt puttsValue in
        if isNaN putts \<or> js_lt putts (Num 0)
          then [\<lparr>field = ''putts'', message = ''Putts must be 0 or more''\<rparr>]
        else if js_gt putts (Num 19)
          then [\<lparr>field = ''putts'', message = ''Putts cannot exceed 19''\<rparr>]
        else if \<not> isInteger putts
          then [\<lparr>field = ''putts'', message = ''Putts must be a whole number''\<rparr>]
        else [])
      else [])"

definition consistency_error :: validation_error where
  "consistency_error = \<lparr>field = ''consistency'',
     message = ''Approaches + Putts cannot exceed throws - 1 (need at least 1 drive)''\<rparr>"

definition consistency_errors ::
  "validation_error list \<Rightarrow> jsnum \<Rightarrow> string \<Rightarrow> string \<Rightarrow> validation_error list" where
  "consistency_errors errors_so_far throws approachesValue puttsValue =
     (if length errors_so_far = 0 \<and> approachesValue \<noteq> [] \<and> puttsValue \<noteq> []
      then (let approaches = parseInt approachesValue;
                putts = parseInt puttsValue in
        if js_gt (js_add approaches putts) (js_sub throws (Num 1))
          then [consistency_error]
        else [])
      else [])"

definition validateScoreEntry :: "dom_inputs \<Rightarrow> validation_result" where
  "validateScoreEntry d =
     (let throws = parseInt (score_throws d);
          approachesValue = trim (score_approaches d);
          puttsValue = trim (score_putts d);
          errors3 = throws_errors throws @ approaches_errors approachesValue
                      @ putts_errors puttsValue;
          errors4 = errors3 @ consistency_errors errors3 throws approachesValue puttsValue
      in \<lparr>isValid = (length errors4 = 0), errors = errors4\<rparr>)"


definition ex_inputs :: "string \<Rightarrow> string \<Rightarrow> string \<Rightarrow> dom_inputs" where
  "ex_inputs t a p =
     \<lparr>score_throws = t, score_approaches = a, score_putts = p,
      setup_par = ''3'', setup_distance = ''''\<rparr>"

subsection \<open>Round state\<close>

text \<open>
  A hole and a score as \<^verbatim>\<open>handleNewCourseSubmit\<close> and \<^verbatim>\<open>saveCurrentHoleScore\<close>
  build them. A nullable field is an option. The fields of a hole carry the prefix
  \<open>h_\<close> and those of a round the prefix \<open>r_\<close> where a score has a field of the same
  name.
\<close>

record hole =
  h_hole_id :: string
  h_course_id :: string
  h_hole_number :: int
  par :: int
  distance :: "jsnum option"

record score =
  score_id :: string
  round_id :: string
  hole_id :: string
  hole_number :: int
  throws :: jsnum
  approaches :: "jsnum option"
  putts :: "jsnum option"
  created_at :: string

record round =
  r_round_id :: string
  r_course_id :: string
  courseName :: string
  round_date :: string
  completed :: bool
  holes :: "hole list"
  scores :: "score list"
  isNewCourse :: bool
  r_currentHoleIndex :: int
  holeCount :: int
  total_score :: "int option"
  total_par :: "int option"

text \<open>
  The part of \<^verbatim>\<open>App.state\<close> and of its surroundings that the scoring handlers touch:
  the current round and hole index, the snapshot under the local-storage key
  \<^verbatim>\<open>currentRound\<close>, the toast shown last, the \<^verbatim>\<open>error\<close> class of the three inputs
  and the current screen.
\<close>

record app_state =
  currentRound :: "round option"
  currentHoleIndex :: int
  savedRound :: "round option"
  toast :: "(string \<times> string \<times> nat) option"
  throws_input_error :: bool
  approaches_input_error :: bool
  putts_input_error :: bool
  currentScreen :: string

text \<open>What the handlers take from outside: a new identifier and the current time.\<close>

record env =
  generateId :: string
  formatDateForStorage :: string

text \<open>
  A handler either returns or throws; in both cases the state it has reached stays, since
  the source mutates it in place.
\<close>

datatype outcome = Returned app_state | Threw js_error app_state

fun state_of :: "outcome \<Rightarrow> app_state" where
  "state_of (Returned st) = st"
| "state_of (Threw _ st) = st"

fun threw :: "outcome \<Rightarrow> bool" where
  "threw (Returned _) = False"
| "threw (Threw _ _) = True"

definition clearValidationErrors :: "app_state \<Rightarrow> app_state" where
  "clearValidationErrors st =
     st\<lparr>throws_input_error := False, approaches_input_error := False,
        putts_input_error := False\<rparr>"

text \<open>The loop of \<^verbatim>\<open>showValidationErrors\<close> that highlights the fields.\<close>

fun highlight :: "validation_error list \<Rightarrow> app_state \<Rightarrow> app_state" where
  "highlight [] st = st"
| "highlight (e # es) st =
     highlight es
       (if field e = ''throws'' then st\<lparr>throws_input_error := True\<rparr>
        else if field e = ''approaches'' then st\<lparr>approaches_input_error := True\<rparr>
        else if field e = ''putts'' then st\<lparr>putts_input_error := True\<rparr>
        else if field e = ''consistency''
          then st\<lparr>approaches_input_error := True, putts_input_error := True\<rparr>
        else st)"

definition showValidationErrors :: "validation_error list \<Rightarrow> app_state \<Rightarrow> app_state" where
  "showValidationErrors errs st =
     (let st1 = clearValidationErrors st;
          errorMessages = map message errs;
          st2 = st1\<lparr>toast := Some (join ''. '' errorMessages, ''error'', 4000)\<rparr>
      in highlight errs st2)"

text \<open>
  The snapshot is written with \<^verbatim>\<open>JSON.stringify\<close> and read back with
  \<^verbatim>\<open>JSON.parse\<close>, which turns a \<^verbatim>\<open>NaN\<close> into \<^verbatim>\<open>null\<close>. (A \<^verbatim>\<open>NaN\<close> in
  \<open>throws\<close>, which has no \<^verbatim>\<open>null\<close> in this model, is kept: the functions modelled
  here treat the two alike.)
\<close>

fun json_num :: "jsnum option \<Rightarrow> jsnum option" where
  "json_num (Some NaN) = None"
| "json_num v = v"

definition json_score :: "score \<Rightarrow> score" where
  "json_score s = s\<lparr>approaches := json_num (approaches s), putts := json_num (putts s)\<rparr>"

definition json_hole :: "hole \<Rightarrow> hole" where
  "json_hole h = h\<lparr>distance := json_num (distance h)\<rparr>"

definition json_round :: "round \<Rightarrow> round" where
  "json_round r = r\<lparr>holes := map json_hole (holes r), scores := map json_score (scores r)\<rparr>"

definition saveCurrentRoundState :: "app_state \<Rightarrow> app_state" where
  "saveCurrentRoundState st =
     (case currentRound st of
        Some r \<Rightarrow> st\<lparr>savedRound := Some (json_round r)\<rparr>
      | None \<Rightarrow> st)"

text \<open>
  \<^verbatim>\<open>saveCurrentHoleScore\<close>, in the three blocks of the source: the hole's par and
  distance, set from the inputs on a new course; the object \<^verbatim>\<open>scoreData\<close>; and the
  update of the \<^verbatim>\<open>scores\<close> array, which keeps the identifier of the entry it replaces.
\<close>

definition update_hole_info :: "dom_inputs \<Rightarrow> hole \<Rightarrow> hole" where
  "update_hole_info d hole =
     hole\<lparr>par := num_or (parseInt (setup_par d)) 3,
          distance := (if setup_distance d \<noteq> []
                       then Some (parseInt (setup_distance d)) else None)\<rparr>"

definition scoreData :: "env \<Rightarrow> dom_inputs \<Rightarrow> round \<Rightarrow> hole \<Rightarrow> int \<Rightarrow> score" where
  "scoreData e d rnd hole holeIndex =
     \<lparr>score_id = generateId e,
      round_id = r_round_id rnd,
      hole_id = h_hole_id hole,
      hole_number = holeIndex + 1,
      throws = Num (num_or (parseInt (score_throws d)) 0),
      approaches = (if score_approaches d \<noteq> []
                    then Some (parseInt (score_approaches d)) else None),
      putts = (if score_putts d \<noteq> []
               then Some (parseInt (score_putts d)) else None),
      created_at = formatDateForStorage e\<rparr>"

definition update_scores :: "score \<Rightarrow> int \<Rightarrow> score list \<Rightarrow> score list" where
  "update_scores sd holeIndex ss =
     (case findIndex (\<lambda>s. hole_number s = holeIndex + 1) ss of
        Some existingIndex \<Rightarrow>
          ss[existingIndex := sd\<lparr>score_id := score_id (ss ! existingIndex)\<rparr>]
      | None \<Rightarrow> ss @ [sd])"

text \<open>
  Reading a field of \<^verbatim>\<open>null\<close> (no current round) or of \<^verbatim>\<open>undefined\<close> (no hole
  at the index) throws a \<^verbatim>\<open>TypeError\<close> before anything is written.
\<close>

definition saveCurrentHoleScore :: "env \<Rightarrow> dom_inputs \<Rightarrow> app_state \<Rightarrow> outcome" where
  "saveCurrentHoleScore e d st =
     (case currentRound st of
        None \<Rightarrow> Threw TypeError st
      | Some rnd \<Rightarrow>
          (let holeIndex = currentHoleIndex st in
           case at_index (holes rnd) holeIndex of
             None \<Rightarrow> Threw TypeError st
           | Some hole \<Rightarrow>
               (let hole' = (if isNewCourse rnd then update_hole_info d hole else hole);
                    sd = scoreData e d rnd hole holeIndex
                in Returned (st\<lparr>currentRound :=
                     Some (rnd\<lparr>holes := (holes rnd)[nat holeIndex := hole'],
                                scores := update_scores sd holeIndex (scores rnd)\<rparr>)\<rparr>))))"

text \<open>
  \<^verbatim>\<open>renderScoringScreen\<close> writes to the page only; what the model keeps of it is that it
  reads \<^verbatim>\<open>hole.par\<close> of the hole at the current index and so throws when there is none.
  Writing to the page (here, in \<^verbatim>\<open>showScreen\<close> and in \<^verbatim>\<open>renderSummary\<close>) is taken not
  to throw.
\<close>

definition renderScoringScreen :: "app_state \<Rightarrow> outcome" where
  "renderScoringScreen st =
     (case currentRound st of
        None \<Rightarrow> Threw TypeError st
      | Some rnd \<Rightarrow>
          (case at_index (holes rnd) (currentHoleIndex st) of
             None \<Rightarrow> Threw TypeError st
           | Some hole \<Rightarrow> Returned st))"

text \<open>\<^verbatim>\<open>Statistics.calculateRunningTotal\<close>: the two totals \<^verbatim>\<open>finishRound\<close> uses.\<close>

definition totalScore :: "score list \<Rightarrow> int" where
  "totalScore ss = foldl (\<lambda>acc s. acc + num_or (throws s) 0) 0 ss"

definition totalPar :: "score list \<Rightarrow> hole list \<Rightarrow> int" where
  "totalPar ss hs =
     foldl (\<lambda>acc s. acc + (case find (\<lambda>h. h_hole_id h = hole_id s) hs of
                              Some h \<Rightarrow> par h | None \<Rightarrow> 3)) 0 ss"

definition finishRound :: "app_state \<Rightarrow> outcome" where
  "finishRound st =
     (case currentRound st of
        None \<Rightarrow> Threw TypeError st
      | Some rnd \<Rightarrow>
          (let rnd' = rnd\<lparr>total_score := Some (totalScore (scores rnd)),
                              total_par := Some (totalPar (scores rnd) (holes rnd)),
                              completed := True\<rparr>;
               st1 = saveCurrentRoundState (st\<lparr>currentRound := Some rnd'\<rparr>)
           in Returned (st1\<lparr>currentScreen := ''summary''\<rparr>)))"

definition navigateHole :: "env \<Rightarrow> dom_inputs \<Rightarrow> int \<Rightarrow> app_state \<Rightarrow> outcome" where
  "navigateHole e d direction st =
     (let validation = validateScoreEntry d in
      if direction > 0 \<and> \<not> isValid validation
      then Returned (showValidationErrors (errors validation) st)
      else
        (let st0 = (if direction > 0 then clearValidationErrors st else st) in
         case saveCurrentHoleScore e d st0 of
           Threw err st1 \<Rightarrow> Threw err st1
         | Returned st1 \<Rightarrow>
             (case currentRound st1 of
                None \<Rightarrow> Threw TypeError st1
              | Some rnd \<Rightarrow>
                  (let newIndex = currentHoleIndex st1 + direction in
                   if newIndex \<ge> 0 \<and> newIndex < holeCount rnd
                   then renderScoringScreen
                          (saveCurrentRoundState
                             (st1\<lparr>currentHoleIndex := newIndex,
                                  currentRound := Some (rnd\<lparr>r_currentHoleIndex := newIndex\<rparr>)\<rparr>))
                   else Returned st1))))"

definition handleSaveHole :: "env \<Rightarrow> dom_inputs \<Rightarrow> app_state \<Rightarrow> outcome" where
  "handleSaveHole e d st =
     (let validation = validateScoreEntry d in
      if \<not> isValid validation
      then Returned (showValidationErrors (errors validation) st)
      else
        (case saveCurrentHoleScore e d (clearValidationErrors st) of
           Threw err st1 \<Rightarrow> Threw err st1
         | Returned st1 \<Rightarrow>
             (case currentRound st1 of
                None \<Rightarrow> Threw TypeError st1
              | Some rnd \<Rightarrow>
                  (let holeIndex = currentHoleIndex st1 in
                   if holeIndex = holeCount rnd - 1
                   then finishRound st1
                   else renderScoringScreen
                          (saveCurrentRoundState
                             (st1\<lparr>currentHoleIndex := holeIndex + 1,
                                  currentRound :=
                                    Some (rnd\<lparr>r_currentHoleIndex := holeIndex + 1\<rparr>)\<rparr>))))))"

text \<open>
  What \<^verbatim>\<open>handleSaveHole\<close> hands back to the code that calls it; \<open>None\<close> is
  \<^verbatim>\<open>undefined\<close>. The source has no \<^verbatim>\<open>return\<close> with a value: after showing the
  validation errors it leaves by a bare \<^verbatim>\<open>return;\<close>, and otherwise it runs to the end
  of its body (or throws).
\<close>

definition handleSaveHole_result ::
  "env \<Rightarrow> dom_inputs \<Rightarrow> app_state \<Rightarrow> validation_result option" where
  "handleSaveHole_result e d st =
     (let validation = validateScoreEntry d in
      if \<not> isValid validation then None else None)"

text \<open>
  \<^verbatim>\<open>handleResumeRound\<close>: the snapshot becomes the current round, its holes sorted by
  hole number (the sort of the source is stable, as \<open>sort_key\<close> is).
\<close>

definition handleResumeRound :: "app_state \<Rightarrow> outcome" where
  "handleResumeRound st =
     (case savedRound st of
        None \<Rightarrow> Returned st
      | Some saved \<Rightarrow>
          (let saved' = saved\<lparr>holes := sort_key h_hole_number (holes saved)\<rparr> in
           renderScoringScreen
             (st\<lparr>currentRound := Some saved',
                 currentHoleIndex := r_currentHoleIndex saved',
                 currentScreen := ''scoring''\<rparr>)))"

text \<open>
  The states of a round: it starts with no score, as \<^verbatim>\<open>selectCourse\<close> and
  \<^verbatim>\<open>handleNewCourseSubmit\<close> create it, and changes by the handlers of the scoring
  screen, each called with any inputs.
\<close>

inductive reachable :: "app_state \<Rightarrow> bool" where
  start: "currentRound st = Some r \<Longrightarrow> scores r = [] \<Longrightarrow> savedRound st = Some (json_round r)
            \<Longrightarrow> reachable st"
| navigate: "reachable st \<Longrightarrow> reachable (state_of (navigateHole e d direction st))"
| save: "reachable st \<Longrightarrow> reachable (state_of (handleSaveHole e d st))"
| resume: "reachable st \<Longrightarrow> reachable (state_of (handleResumeRound st))"

text \<open>At most one entry per hole number, in the current round and in its snapshot.\<close>

definition one_entry_per_hole :: "app_state \<Rightarrow> bool" where
  "one_entry_per_hole st =
     ((case currentRound st of None \<Rightarrow> True
        | Some r \<Rightarrow> distinct (map hole_number (scores r)))
      \<and> (case savedRound st of None \<Rightarrow> True
        | Some r \<Rightarrow> distinct (map hole_number (scores r))))"

text \<open>A course of three holes and a round on it, for the examples.\<close>

definition ex_env :: env where
  "ex_env = \<lparr>generateId = ''id-new'', formatDateForStorage = ''2024-01-01''\<rparr>"

definition ex_hole :: "int \<Rightarrow> hole" where
  "ex_hole n = \<lparr>h_hole_id = ''hole'', h_course_id = ''course'', h_hole_number = n,
                 par = 3, distance = None\<rparr>"

definition ex_round :: "score list \<Rightarrow> int \<Rightarrow> round" where
  "ex_round ss i =
     \<lparr>r_round_id = ''round'', r_course_id = ''course'', courseName = ''Park'',
      round_date = ''2024-01-01'', completed = False,
      holes = [ex_hole 1, ex_hole 2, ex_hole 3], scores = ss, isNewCourse = False,
      r_currentHoleIndex = i, holeCount = 3, total_score = None, total_par = None\<rparr>"

definition ex_state :: "score list \<Rightarrow> int \<Rightarrow> app_state" where
  "ex_state ss i =
     \<lparr>currentRound = Some (ex_round ss i), currentHoleIndex = i,
      savedRound = Some (json_round (ex_round ss i)), toast = None,
      throws_input_error = False, approaches_input_error = False,
      putts_input_error = False, currentScreen = ''scoring''\<rparr>"

definition ex_score :: "string \<Rightarrow> int \<Rightarrow> int \<Rightarrow> score" where
  "ex_score sid n t =
     \<lparr>score_id = sid, round_id = ''round'', hole_id = ''hole'', hole_number = n,
      throws = Num t, approaches = None, putts = None, created_at = ''2024-01-01''\<rparr>"

definition ex_env_id :: "string \<Rightarrow> env" where
  "ex_env_id i = \<lparr>generateId = i, formatDateForStorage = ''2024-01-01''\<rparr>"

text \<open>A round completed by \<open>finishRound\<close> at its last hole.\<close>

definition ex_completed :: app_state where
  "ex_completed = state_of (finishRound (ex_state [ex_score ''id-1'' 1 3] 2))"

section \<open>Operation queue (Storage and SheetsAPI)\<close>

subsection \<open>Entities and rows\<close>

text \<open>
  The entities sent to the sheets are flat objects: a list of fields in insertion order,
  each holding \<^verbatim>\<open>null\<close>, a boolean, a number or a string. A field that is not in the
  list is \<^verbatim>\<open>undefined\<close>.
\<close>

datatype prim = PNull | PBool bool | PNum int | PStr string

type_synonym entity = "(string \<times> prim) list"

type_synonym row = "(string \<times> string) list"

text \<open>\<^verbatim>\<open>String(value)\<close> of an integer: its decimal digits, after a minus sign if negative.\<close>

definition digit_char :: "nat \<Rightarrow> char" where
  "digit_char d = char_of (d + 48)"

fun decimal_onto :: "nat \<Rightarrow> string \<Rightarrow> string" where
  "decimal_onto n acc =
     (if n div 10 = 0 then digit_char (n mod 10) # acc
      else decimal_onto (n div 10) (digit_char (n mod 10) # acc))"

definition number_to_string :: "int \<Rightarrow> string" where
  "number_to_string i =
     (if i < 0 then CHR ''-'' # decimal_onto (nat (- i)) [] else decimal_onto (nat i) [])"

text \<open>The value \<^verbatim>\<open>prepareRowData\<close> stores for one header.\<close>

fun prepared_value :: "prim option \<Rightarrow> string" where
  "prepared_value None = ''''"
| "prepared_value (Some PNull) = ''''"
| "prepared_value (Some (PBool b)) = (if b then ''TRUE'' else ''FALSE'')"
| "prepared_value (Some (PNum n)) = number_to_string n"
| "prepared_value (Some (PStr s)) = s"

definition prepareRowData :: "entity \<Rightarrow> string list \<Rightarrow> row" where
  "prepareRowData data headers = map (\<lambda>header. (header, prepared_value (map_of data header))) headers"

text \<open>\<^verbatim>\<open>CONFIG.sheets\<close> and \<^verbatim>\<open>CONFIG.sheetHeaders\<close>.\<close>

definition sheets_courses :: string where "sheets_courses = ''Courses''"
definition sheets_holes :: string where "sheets_holes = ''Holes''"
definition sheets_rounds :: string where "sheets_rounds = ''Rounds''"
definition sheets_scores :: string where "sheets_scores = ''Scores''"

definition headers_courses :: "string list" where
  "headers_courses = [''course_id'', ''course_name'', ''hole_count'', ''created_date'', ''last_played'']"
definition headers_holes :: "string list" where
  "headers_holes = [''hole_id'', ''course_id'', ''hole_number'', ''par'', ''distance'']"
definition headers_rounds :: "string list" where
  "headers_rounds = [''round_id'', ''course_id'', ''round_date'', ''completed'', ''total_score'', ''total_par'']"
definition headers_scores :: "string list" where
  "headers_scores = [''score_id'', ''round_id'', ''hole_id'', ''hole_number'', ''throws'',
                     ''approaches'', ''putts'', ''created_at'']"

subsection \<open>The remote gateway\<close>

text \<open>
  The requests the replay sends through \<^verbatim>\<open>getRows\<close>, \<^verbatim>\<open>createRow\<close> and
  \<^verbatim>\<open>updateRow\<close>. The gateway is any function of its own state and the request: it
  answers \<open>None\<close> when the request fails (\<^verbatim>\<open>request\<close> throws) and \<open>Some rows\<close> when it
  succeeds, \<open>rows\<close> being the \<^verbatim>\<open>rows\<close> of the response (\<^verbatim>\<open>result?.rows || []\<close>, read by
  \<^verbatim>\<open>getRows\<close> only).
\<close>

datatype request =
    GetRows string
  | CreateRow string row
  | UpdateRow string int row

type_synonym 'g gateway = "'g \<Rightarrow> request \<Rightarrow> entity list option \<times> 'g"

text \<open>
  The write operations. Each returns whether it completed (\<open>False\<close>: it threw) and the
  state of the gateway. A loop over rows stops at the first request that fails.
\<close>

definition saveCourse :: "'g gateway \<Rightarrow> 'g \<Rightarrow> entity \<Rightarrow> bool \<times> 'g" where
  "saveCourse gw g course =
     (case gw g (CreateRow sheets_courses (prepareRowData course headers_courses)) of
        (None, g') \<Rightarrow> (False, g')
      | (Some _, g') \<Rightarrow> (True, g'))"

fun saveHoles :: "'g gateway \<Rightarrow> 'g \<Rightarrow> entity list \<Rightarrow> bool \<times> 'g" where
  "saveHoles gw g [] = (True, g)"
| "saveHoles gw g (hole # rest) =
     (case gw g (CreateRow sheets_holes (prepareRowData hole headers_holes)) of
        (None, g') \<Rightarrow> (False, g')
      | (Some _, g') \<Rightarrow> saveHoles gw g' rest)"

definition saveRound :: "'g gateway \<Rightarrow> 'g \<Rightarrow> entity \<Rightarrow> bool \<times> 'g" where
  "saveRound gw g rnd =
     (case gw g (CreateRow sheets_rounds (prepareRowData rnd headers_rounds)) of
        (None, g') \<Rightarrow> (False, g')
      | (Some _, g') \<Rightarrow> (True, g'))"

definition updateRound :: "'g gateway \<Rightarrow> 'g \<Rightarrow> entity \<Rightarrow> bool \<times> 'g" where
  "updateRound gw g rnd =
     (case gw g (GetRows sheets_rounds) of
        (None, g') \<Rightarrow> (False, g')
      | (Some allRounds, g') \<Rightarrow>
          (case findIndex (\<lambda>r. map_of r ''round_id'' = map_of rnd ''round_id'') allRounds of
             None \<Rightarrow> (True, g')
           | Some rowIndex \<Rightarrow>
               (case gw g' (UpdateRow sheets_rounds (int rowIndex + 2)
                              (prepareRowData rnd headers_rounds)) of
                  (None, g'') \<Rightarrow> (False, g'')
                | (Some _, g'') \<Rightarrow> (True, g''))))"

fun saveScores :: "'g gateway \<Rightarrow> 'g \<Rightarrow> entity list \<Rightarrow> bool \<times> 'g" where
  "saveScores gw g [] = (True, g)"
| "saveScores gw g (score # rest) =
     (case gw g (CreateRow sheets_scores (prepareRowData score headers_scores)) of
        (None, g') \<Rightarrow> (False, g')
      | (Some _, g') \<Rightarrow> saveScores gw g' rest)"

text \<open>
  \<^verbatim>\<open>course.last_played = date\<close> sets the field of the row found; an undefined date
  is prepared like \<^verbatim>\<open>null\<close>.
\<close>

definition updateCourseLastPlayed ::
  "'g gateway \<Rightarrow> 'g \<Rightarrow> prim option \<Rightarrow> prim option \<Rightarrow> bool \<times> 'g" where
  "updateCourseLastPlayed gw g courseId date =
     (case gw g (GetRows sheets_courses) of
        (None, g') \<Rightarrow> (False, g')
      | (Some allCourses, g') \<Rightarrow>
          (case findIndex (\<lambda>c. map_of c ''course_id'' = courseId) allCourses of
             None \<Rightarrow> (True, g')
           | Some rowIndex \<Rightarrow>
               (let course = AList.update ''last_played''
                               (case date of None \<Rightarrow> PNull | Some v \<Rightarrow> v)
                               (allCourses ! rowIndex)
                in case gw g' (UpdateRow sheets_courses (int rowIndex + 2)
                                 (prepareRowData course headers_courses)) of
                     (None, g'') \<Rightarrow> (False, g'')
                   | (Some _, g'') \<Rightarrow> (True, g''))))"

subsection \<open>The pending queue\<close>

text \<open>
  A pending operation is one of the six kinds the \<^verbatim>\<open>switch\<close> of
  \<^verbatim>\<open>processPendingSync\<close> handles, with its data and the time it was queued.
\<close>

datatype operation =
    SaveCourse entity
  | SaveHoles "entity list"
  | SaveRound entity
  | UpdateRound entity
  | SaveScores "entity list"
  | UpdateCourseLastPlayed entity

record pending_op =
  operation :: operation
  timestamp :: string

text \<open>
  The value under the local-storage key \<^verbatim>\<open>pendingSync\<close>; \<open>None\<close> when the key is
  absent. Writing to local storage is taken to succeed.
\<close>

record queue_store =
  pendingSync :: "pending_op list option"

definition getPendingSync :: "queue_store \<Rightarrow> pending_op list" where
  "getPendingSync ls = (case pendingSync ls of None \<Rightarrow> [] | Some pending \<Rightarrow> pending)"

definition addPendingSync :: "string \<Rightarrow> operation \<Rightarrow> queue_store \<Rightarrow> queue_store" where
  "addPendingSync now opn ls =
     (let pending = getPendingSync ls
      in ls\<lparr>pendingSync := Some (pending @ [\<lparr>operation = opn, timestamp = now\<rparr>])\<rparr>)"

text \<open>The \<^verbatim>\<open>switch\<close> on the type of the operation.\<close>

fun run_operation :: "'g gateway \<Rightarrow> 'g \<Rightarrow> operation \<Rightarrow> bool \<times> 'g" where
  "run_operation gw g (SaveCourse dat) = saveCourse gw g dat"
| "run_operation gw g (SaveHoles dat) = saveHoles gw g dat"
| "run_operation gw g (SaveRound dat) = saveRound gw g dat"
| "run_operation gw g (UpdateRound dat) = updateRound gw g dat"
| "run_operation gw g (SaveScores dat) = saveScores gw g dat"
| "run_operation gw g (UpdateCourseLastPlayed dat) =
     updateCourseLastPlayed gw g (map_of dat ''courseId'') (map_of dat ''date'')"

text \<open>The loop of \<^verbatim>\<open>processPendingSync\<close>, with its array \<^verbatim>\<open>failed\<close>.\<close>

fun process_loop ::
  "'g gateway \<Rightarrow> 'g \<Rightarrow> pending_op list \<Rightarrow> pending_op list \<Rightarrow> pending_op list \<times> 'g" where
  "process_loop gw g failed [] = (failed, g)"
| "process_loop gw g failed (opn # rest) =
     (case run_operation gw g (operation opn) of
        (True, g') \<Rightarrow> process_loop gw g' failed rest
      | (False, g') \<Rightarrow> process_loop gw g' (failed @ [opn]) rest)"

definition processPendingSync ::
  "'g gateway \<Rightarrow> queue_store \<Rightarrow> 'g \<Rightarrow> bool \<times> queue_store \<times> 'g" where
  "processPendingSync gw ls g =
     (let pending = getPendingSync ls in
      if length pending = 0 then (True, ls, g)
      else
        (case process_loop gw g [] pending of
           (failed, g') \<Rightarrow> (length failed = 0, ls\<lparr>pendingSync := Some failed\<rparr>, g')))"

subsection \<open>What a drain pass is expected to do\<close>

text \<open>
  The attempts of one pass, told without the loop's accumulator: each pending operation
  in turn, run from the state of the gateway the operations before it left, with whether
  it completed.
\<close>

fun attempts :: "'g gateway \<Rightarrow> 'g \<Rightarrow> pending_op list \<Rightarrow> (pending_op \<times> bool) list" where
  "attempts gw g [] = []"
| "attempts gw g (opn # rest) =
     (case run_operation gw g (operation opn) of
        (ok, g') \<Rightarrow> (opn, ok) # attempts gw g' rest)"

definition gateway_after :: "'g gateway \<Rightarrow> 'g \<Rightarrow> pending_op list \<Rightarrow> 'g" where
  "gateway_after gw g pending = foldl (\<lambda>g opn. snd (run_operation gw g (operation opn))) g pending"

text \<open>
  A gateway that records the requests it receives, in order, each with whether it
  succeeded; and the calls one operation makes from a state of the gateway.
\<close>

definition logged :: "'g gateway \<Rightarrow> ('g \<times> (request \<times> bool) list) gateway" where
  "logged gw = (\<lambda>(g, lg) req. case gw g req of
                  (resp, g') \<Rightarrow> (resp, (g', lg @ [(req, resp \<noteq> None)])))"

definition calls :: "'g gateway \<Rightarrow> 'g \<Rightarrow> operation \<Rightarrow> (request \<times> bool) list" where
  "calls gw g opn = snd (snd (run_operation (logged gw) (g, []) opn))"

definition always_succeeds :: "'g gateway \<Rightarrow> bool" where
  "always_succeeds gw = (\<forall>g req. fst (gw g req) \<noteq> None)"

definition enqueue_all :: "(string \<times> operation) list \<Rightarrow> queue_store \<Rightarrow> queue_store" where
  "enqueue_all ops ls = foldl (\<lambda>ls (now, opn). addPendingSync now opn ls) ls ops"

text \<open>
  The requests one operation sends to a gateway whose calls succeed: one
  \<^verbatim>\<open>createRow\<close> for each entity to save, and for an update a \<^verbatim>\<open>getRows\<close>, followed
  by an \<^verbatim>\<open>updateRow\<close> when the row is found.
\<close>

definition rows_answered :: "'g gateway \<Rightarrow> 'g \<Rightarrow> string \<Rightarrow> entity list" where
  "rows_answered gw g sheet = (case fst (gw g (GetRows sheet)) of None \<Rightarrow> [] | Some rows \<Rightarrow> rows)"

fun requests_of :: "'g gateway \<Rightarrow> 'g \<Rightarrow> operation \<Rightarrow> request list" where
  "requests_of gw g (SaveCourse dat) = [CreateRow sheets_courses (prepareRowData dat headers_courses)]"
| "requests_of gw g (SaveHoles dat) =
     map (\<lambda>hole. CreateRow sheets_holes (prepareRowData hole headers_holes)) dat"
| "requests_of gw g (SaveRound dat) = [CreateRow sheets_rounds (prepareRowData dat headers_rounds)]"
| "requests_of gw g (UpdateRound dat) =
     GetRows sheets_rounds #
       (case findIndex (\<lambda>r. map_of r ''round_id'' = map_of dat ''round_id'')
               (rows_answered gw g sheets_rounds) of
          None \<Rightarrow> []
        | Some rowIndex \<Rightarrow>
            [UpdateRow sheets_rounds (int rowIndex + 2) (prepareRowData dat headers_rounds)])"
| "requests_of gw g (SaveScores dat) =
     map (\<lambda>score. CreateRow sheets_scores (prepareRowData score headers_scores)) dat"
| "requests_of gw g (UpdateCourseLastPlayed dat) =
     GetRows sheets_courses #
       (case findIndex (\<lambda>c. map_of c ''course_id'' = map_of dat ''courseId'')
               (rows_answered gw g sheets_courses) of
          None \<Rightarrow> []
        | Some rowIndex \<Rightarrow>
            [UpdateRow sheets_courses (int rowIndex + 2)
               (prepareRowData
                  (AList.update ''last_played''
                     (case map_of dat ''date'' of None \<Rightarrow> PNull | Some v \<Rightarrow> v)
                     (rows_answered gw g sheets_courses ! rowIndex))
                  headers_courses)])"

fun replay_requests :: "'g gateway \<Rightarrow> 'g \<Rightarrow> pending_op list \<Rightarrow> request list" where
  "replay_requests gw g [] = []"
| "replay_requests gw g (opn # rest) =
     requests_of gw g (operation opn)
       @ replay_requests gw (snd (run_operation gw g (operation opn))) rest"

text \<open>Gateways and operations for the examples.\<close>

definition ex_gateway_fails_2_5 :: "nat gateway" where
  "ex_gateway_fails_2_5 = (\<lambda>n req. (if n = 1 \<or> n = 4 then None else Some [], Suc n))"

definition ex_gateway_ok :: "nat gateway" where
  "ex_gateway_ok = (\<lambda>n req. (Some [], Suc n))"

definition ex_course :: "string \<Rightarrow> entity" where
  "ex_course i = [(''course_id'', PStr i), (''course_name'', PStr ''Park''),
                  (''hole_count'', PNum 3)]"

definition ex_op :: "string \<Rightarrow> pending_op" where
  "ex_op i = \<lparr>operation = SaveCourse (ex_course i), timestamp = ''t''\<rparr>"

definition ex_score_entity :: "string \<Rightarrow> entity" where
  "ex_score_entity i = [(''score_id'', PStr i), (''throws'', PNum 3)]"

definition ex_six :: queue_store where
  "ex_six = \<lparr>pendingSync = Some [ex_op ''1'', ex_op ''2'', ex_op ''3'', ex_op ''4'',
                                ex_op ''5'', ex_op ''6'']\<rparr>"

definition ex_two :: "(string \<times> operation) list" where
  "ex_two = [(''t1'', SaveCourse (ex_course ''c'')),
             (''t2'', SaveScores [ex_score_entity ''a'', ex_score_entity ''b''])]"

section \<open>Record store (Storage)\<close>

text \<open>
  What \<^verbatim>\<open>JSON.parse\<close> gives for a value of local storage: an array of entities (a
  collection), an object, or a scalar.
\<close>

datatype stored = Items "entity list" | Object entity | Scalar prim

fun truthy :: "stored \<Rightarrow> bool" where
  "truthy (Items _) = True"
| "truthy (Object _) = True"
| "truthy (Scalar PNull) = False"
| "truthy (Scalar (PBool b)) = b"
| "truthy (Scalar (PNum n)) = (n \<noteq> 0)"
| "truthy (Scalar (PStr s)) = (s \<noteq> [])"

text \<open>
  \<^verbatim>\<open>CONFIG.storageKeys[storeName]\<close>; for another name it is \<^verbatim>\<open>undefined\<close>, which
  local storage reads as the key \<^verbatim>\<open>"undefined"\<close>.
\<close>

definition storageKeys :: "string \<Rightarrow> string" where
  "storageKeys name =
     (if name = ''spreadsheetId'' then ''dgtracker_spreadsheet_id''
      else if name = ''courses'' then ''dgtracker_courses''
      else if name = ''holes'' then ''dgtracker_holes''
      else if name = ''rounds'' then ''dgtracker_rounds''
      else if name = ''scores'' then ''dgtracker_scores''
      else if name = ''currentRound'' then ''dgtracker_current_round''
      else if name = ''pendingSync'' then ''dgtracker_pending_sync''
      else if name = ''lastSync'' then ''dgtracker_last_sync''
      else if name = ''userInfo'' then ''dgtracker_user_info''
      else ''undefined'')"

subsection \<open>The indexed backend\<close>

text \<open>
  An object store of IndexedDB with in-line keys: its key path, whether it has a key
  generator and the generator's current number, and its records in ascending order of
  key. A key is a number or a string, numbers before strings. \<^verbatim>\<open>transaction\<close> throws a
  \<^verbatim>\<open>NotFoundError\<close> for a name that is not an object store of the database, and
  \<^verbatim>\<open>put\<close> throws a \<^verbatim>\<open>DataError\<close> for a record without a valid key in a store
  without a key generator.
\<close>

datatype idb_key = KNum int | KStr string

record object_store =
  keyPath :: string
  autoIncrement :: bool
  key_generator :: int
  records :: "(idb_key \<times> entity) list"

type_synonym idb = "string \<rightharpoonup> object_store"

fun string_before :: "string \<Rightarrow> string \<Rightarrow> bool" where
  "string_before [] [] = False"
| "string_before [] (b # bs) = True"
| "string_before (a # as) [] = False"
| "string_before (a # as) (b # bs) =
     ((of_char a :: nat) < of_char b \<or> (a = b \<and> string_before as bs))"

fun key_before :: "idb_key \<Rightarrow> idb_key \<Rightarrow> bool" where
  "key_before (KNum a) (KNum b) = (a < b)"
| "key_before (KNum a) (KStr b) = True"
| "key_before (KStr a) (KNum b) = False"
| "key_before (KStr a) (KStr b) = string_before a b"

fun store_record :: "idb_key \<Rightarrow> entity \<Rightarrow> (idb_key \<times> entity) list \<Rightarrow> (idb_key \<times> entity) list" where
  "store_record k v [] = [(k, v)]"
| "store_record k v ((k', v') # rest) =
     (if k = k' then (k, v) # rest
      else if key_before k k' then (k, v) # (k', v') # rest
      else (k', v') # store_record k v rest)"

definition idb_put :: "entity \<Rightarrow> object_store \<Rightarrow> js_error + object_store" where
  "idb_put item os =
     (case map_of item (keyPath os) of
        None \<Rightarrow>
          if autoIncrement os
          then Inr (os\<lparr>records := store_record (KNum (key_generator os))
                                     (AList.update (keyPath os) (PNum (key_generator os)) item)
                                     (records os),
                       key_generator := key_generator os + 1\<rparr>)
          else Inl DataError
      | Some (PNum n) \<Rightarrow>
          Inr (os\<lparr>records := store_record (KNum n) item (records os),
                  key_generator := (if autoIncrement os \<and> n \<ge> key_generator os
                                    then n + 1 else key_generator os)\<rparr>)
      | Some (PStr s) \<Rightarrow> Inr (os\<lparr>records := store_record (KStr s) item (records os)\<rparr>)
      | Some _ \<Rightarrow> Inl DataError)"

text \<open>The database \<^verbatim>\<open>onupgradeneeded\<close> creates.\<close>

definition new_store :: "string \<Rightarrow> bool \<Rightarrow> object_store" where
  "new_store kp auto = \<lparr>keyPath = kp, autoIncrement = auto, key_generator = 1, records = []\<rparr>"

definition init_db :: idb where
  "init_db = [''courses'' \<mapsto> new_store ''course_id'' False,
              ''holes'' \<mapsto> new_store ''hole_id'' False,
              ''rounds'' \<mapsto> new_store ''round_id'' False,
              ''scores'' \<mapsto> new_store ''score_id'' False,
              ''pendingSync'' \<mapsto> new_store ''id'' True]"

subsection \<open>The store\<close>

text \<open>
  \<open>db\<close> is \<open>None\<close> when \<^verbatim>\<open>init\<close> fell back to local storage. Local storage holds values
  written by \<^verbatim>\<open>Storage.set\<close>, and writing to it is taken to succeed. Whether a request to
  the indexed backend fails (\<^verbatim>\<open>onerror\<close>) is an argument of each operation.
\<close>

record storage =
  db :: "idb option"
  localStorage :: "string \<rightharpoonup> stored"

definition storage_get :: "storage \<Rightarrow> string \<Rightarrow> stored" where
  "storage_get st key = (case localStorage st key of None \<Rightarrow> Scalar PNull | Some v \<Rightarrow> v)"

definition storage_set :: "string \<Rightarrow> stored \<Rightarrow> storage \<Rightarrow> storage" where
  "storage_set key v st = st\<lparr>localStorage := (localStorage st)(key \<mapsto> v)\<rparr>"

text \<open>\<^verbatim>\<open>this.get(key) || []\<close>.\<close>

definition get_or_empty :: "storage \<Rightarrow> string \<Rightarrow> stored" where
  "get_or_empty st key = (if truthy (storage_get st key) then storage_get st key else Items [])"

text \<open>
  \<^verbatim>\<open>getAll\<close>: \<open>Inl\<close> is the error the returned promise is rejected with. An exception
  thrown in the executor of the promise (by \<^verbatim>\<open>transaction\<close>) rejects it.
\<close>

definition getAll :: "bool \<Rightarrow> string \<Rightarrow> storage \<Rightarrow> js_error + stored" where
  "getAll request_fails storeName st =
     (case db st of
        None \<Rightarrow> Inr (get_or_empty st (storageKeys storeName))
      | Some d \<Rightarrow>
          (case d storeName of
             None \<Rightarrow> Inl NotFoundError
           | Some os \<Rightarrow>
               if request_fails then Inr (Items [])
               else Inr (Items (map snd (records os)))))"

text \<open>
  \<^verbatim>\<open>put\<close>. In the fallback, \<^verbatim>\<open>items.findIndex\<close> is not a function when the stored
  value is not an array, and the call throws a \<^verbatim>\<open>TypeError\<close>.
\<close>

definition put :: "bool \<Rightarrow> string \<Rightarrow> entity \<Rightarrow> storage \<Rightarrow> (js_error + bool) \<times> storage" where
  "put request_fails storeName item st =
     (case db st of
        None \<Rightarrow>
          (let keyField = butlast storeName @ ''_id'' in
           case get_or_empty st (storageKeys storeName) of
             Items items \<Rightarrow>
               (let items' =
                  (case findIndex (\<lambda>i. map_of i keyField = map_of item keyField) items of
                     Some index \<Rightarrow> items[index := item]
                   | None \<Rightarrow> items @ [item])
                in (Inr True, storage_set (storageKeys storeName) (Items items') st))
           | Object _ \<Rightarrow> (Inl TypeError, st)
           | Scalar _ \<Rightarrow> (Inl TypeError, st))
      | Some d \<Rightarrow>
          (case d storeName of
             None \<Rightarrow> (Inl NotFoundError, st)
           | Some os \<Rightarrow>
               (case idb_put item os of
                  Inl err \<Rightarrow> (Inl err, st)
                | Inr os' \<Rightarrow>
                    if request_fails then (Inr False, st)
                    else (Inr True, st\<lparr>db := Some (d(storeName \<mapsto> os'))\<rparr>))))"

text \<open>The name of the field that identifies a record of a collection, where there is one.\<close>

definition key_field :: "storage \<Rightarrow> string \<Rightarrow> string option" where
  "key_field st storeName =
     (case db st of
        None \<Rightarrow> Some (butlast storeName @ ''_id'')
      | Some d \<Rightarrow> map_option keyPath (d storeName))"

text \<open>
  \<^verbatim>\<open>getById\<close>. In the fallback, \<^verbatim>\<open>items.find\<close> is not a function when the stored
  value is not an array. On the indexed backend \<^verbatim>\<open>store.get\<close> throws a
  \<^verbatim>\<open>DataError\<close> for a value that is not a valid key.
\<close>

fun idb_key_of :: "prim \<Rightarrow> idb_key option" where
  "idb_key_of (PNum n) = Some (KNum n)"
| "idb_key_of (PStr s) = Some (KStr s)"
| "idb_key_of _ = None"

definition getById :: "bool \<Rightarrow> string \<Rightarrow> prim \<Rightarrow> storage \<Rightarrow> js_error + entity option" where
  "getById request_fails storeName record_id st =
     (case db st of
        None \<Rightarrow>
          (case get_or_empty st (storageKeys storeName) of
             Items items \<Rightarrow>
               Inr (find (\<lambda>item. map_of item (butlast storeName @ ''_id'') = Some record_id) items)
           | Object _ \<Rightarrow> Inl TypeError
           | Scalar _ \<Rightarrow> Inl TypeError)
      | Some d \<Rightarrow>
          (case d storeName of
             None \<Rightarrow> Inl NotFoundError
           | Some os \<Rightarrow>
               (case idb_key_of record_id of
                  None \<Rightarrow> Inl DataError
                | Some k \<Rightarrow>
                    if request_fails then Inr None
                    else Inr (map_of (records os) k))))"

text \<open>The number of records \<open>getAll\<close> returns for a collection (0 when it returns no array).\<close>

definition record_count :: "string \<Rightarrow> storage \<Rightarrow> nat" where
  "record_count storeName st =
     (case getAll False storeName st of
        Inr (Items items) \<Rightarrow> length items
      | _ \<Rightarrow> 0)"

text \<open>Stores for the examples: the fallback and the indexed backend, one course each.\<close>

definition ex_fallback :: storage where
  "ex_fallback = \<lparr>db = None,
                   localStorage = [''dgtracker_courses'' \<mapsto> Items [ex_course ''c'']]\<rparr>"

definition ex_indexed :: storage where
  "ex_indexed = \<lparr>db = Some (init_db(''courses'' \<mapsto>
                     (new_store ''course_id'' False)\<lparr>records := [(KStr ''c'', ex_course ''c'')]\<rparr>)),
                  localStorage = Map.empty\<rparr>"

definition ex_course2 :: entity where
  "ex_course2 = [(''course_id'', PStr ''c''), (''course_name'', PStr ''Lake''),
                 (''hole_count'', PNum 9)]"

section \<open>Statistics\<close>

text \<open>
  \<^verbatim>\<open>CONFIG.statistics\<close>. Averages are exact rationals here, where the source computes in
  floating point; \<^verbatim>\<open>Math.round\<close> rounds half up.
\<close>

definition minRoundsForAverage :: nat where "minRoundsForAverage = 1"

definition minDataPointsForDetailedStats :: nat where "minDataPointsForDetailedStats = 3"

text \<open>The test \<^verbatim>\<open>v !== null && !isNaN(v)\<close> on a value that may be null.\<close>

fun valid_number :: "jsnum option \<Rightarrow> bool" where
  "valid_number None = False"
| "valid_number (Some NaN) = False"
| "valid_number (Some (Num _)) = True"

fun number_value :: "jsnum option \<Rightarrow> rat" where
  "number_value (Some (Num n)) = of_int n"
| "number_value _ = 0"

text \<open>\<^verbatim>\<open>Utils.average\<close>; \<open>None\<close> is \<^verbatim>\<open>null\<close>.\<close>

definition average :: "jsnum option list \<Rightarrow> rat option" where
  "average numbers =
     (if length numbers = 0 then None
      else (let validNumbers = filter valid_number numbers in
        if length validNumbers = 0 then None
        else Some (foldl (\<lambda>a b. a + number_value b) 0 validNumbers
                     / of_nat (length validNumbers))))"

text \<open>\<^verbatim>\<open>Utils.roundTo(num, 1)\<close>; \<^verbatim>\<open>null\<close> counts as 0 in the product.\<close>

definition roundTo :: "rat option \<Rightarrow> rat" where
  "roundTo num =
     (let x = (case num of None \<Rightarrow> 0 | Some v \<Rightarrow> v)
      in of_int \<lfloor>x * 10 + 1 / 2\<rfloor> / 10)"

text \<open>
  The object \<^verbatim>\<open>calculateHoleStats\<close> returns; the last two fields are missing
  (\<open>None\<close>) from the object returned when the hole has no score.
\<close>

record hole_stats =
  hasData :: bool
  roundCount :: nat
  avgScore :: "rat option"
  avgApproaches :: "rat option"
  avgPutts :: "rat option"
  hasEnoughApproachData :: "bool option"
  hasEnoughPuttData :: "bool option"

definition calculateHoleStats :: "string \<Rightarrow> score list \<Rightarrow> hole_stats" where
  "calculateHoleStats holeId all_scores =
     (let holeScores = filter (\<lambda>s. hole_id s = holeId) all_scores in
      if length holeScores = 0
      then \<lparr>hasData = False, roundCount = 0, avgScore = None, avgApproaches = None,
            avgPutts = None, hasEnoughApproachData = None, hasEnoughPuttData = None\<rparr>
      else
        (let throwsValues = filter valid_number (map (\<lambda>s. Some (throws s)) holeScores);
             approachesValues = filter valid_number (map approaches holeScores);
             puttsValues = filter valid_number (map putts holeScores);
             minRounds = minDataPointsForDetailedStats
         in \<lparr>hasData = (length throwsValues \<ge> minRoundsForAverage),
              roundCount = length throwsValues,
              avgScore = (if length throwsValues > 0
                          then Some (roundTo (average throwsValues)) else None),
              avgApproaches = (if length approachesValues \<ge> minRounds
                               then Some (roundTo (average approachesValues)) else None),
              avgPutts = (if length puttsValues \<ge> minRounds
                          then Some (roundTo (average puttsValues)) else None),
              hasEnoughApproachData = Some (length approachesValues \<ge> minRounds),
              hasEnoughPuttData = Some (length puttsValues \<ge> minRounds)\<rparr>))"

text \<open>A history for the examples: ten scores of one hole, two of them with approaches.\<close>

definition ex_history :: "score list" where
  "ex_history =
     replicate 8 (ex_score ''s'' 1 3)
       @ [(ex_score ''s'' 1 4)\<lparr>approaches := Some (Num 2)\<rparr>,
          (ex_score ''s'' 1 3)\<lparr>approaches := Some (Num 1)\<rparr>]"

text \<open>A record without an identifier, and the indexed backend as \<^verbatim>\<open>init\<close> creates it.\<close>

definition ex_keyless :: entity where
  "ex_keyless = [(''type'', PStr ''saveCourse'')]"

definition ex_new_indexed :: storage where
  "ex_new_indexed = \<lparr>db = Some init_db, localStorage = Map.empty\<rparr>"

section \<open>Properties of the validation\<close>

lemma throws_errors_field: "e \<in> set (throws_errors t) \<Longrightarrow> field e = ''throws''"
  by (auto simp: throws_errors_def split: if_splits)

lemma approaches_errors_field: "e \<in> set (approaches_errors s) \<Longrightarrow> field e = ''approaches''"
  by (auto simp: approaches_errors_def Let_def split: if_splits)

lemma putts_errors_field: "e \<in> set (putts_errors s) \<Longrightarrow> field e = ''putts''"
  by (auto simp: putts_errors_def Let_def split: if_splits)

lemma consistency_error_field: "field consistency_error = ''consistency''"
  by (simp add: consistency_error_def)

lemma throws_errors_Nil: "throws_errors t = [] \<longleftrightarrow> (\<exists>p. t = Num p \<and> 1 \<le> p \<and> p \<le> 20)"
  by (cases t) (auto simp: throws_errors_def)

lemma approaches_errors_Nil:
  "approaches_errors s = [] \<longleftrightarrow> (s = [] \<or> (\<exists>a. parseInt s = Num a \<and> 0 \<le> a \<and> a \<le> 19))"
  by (cases "parseInt s") (auto simp: approaches_errors_def Let_def)

lemma putts_errors_Nil:
  "putts_errors s = [] \<longleftrightarrow> (s = [] \<or> (\<exists>a. parseInt s = Num a \<and> 0 \<le> a \<and> a \<le> 19))"
  by (cases "parseInt s") (auto simp: putts_errors_def Let_def)

lemma consistency_errors_cases:
  "consistency_errors es t a b = [] \<or> (consistency_errors es t a b = [consistency_error] \<and> es = [] \<and> a \<noteq> [] \<and> b \<noteq> [])"
  by (auto simp: consistency_errors_def Let_def)

lemma validate_clean_fields:
  assumes "parseInt (score_throws d) = Num p" "1 \<le> p" "p \<le> 20"
    "trim (score_approaches d) \<noteq> []" "parseInt (trim (score_approaches d)) = Num a"
    "0 \<le> a" "a \<le> 19"
    "trim (score_putts d) \<noteq> []" "parseInt (trim (score_putts d)) = Num b"
    "0 \<le> b" "b \<le> 19"
  shows "errors (validateScoreEntry d) = (if a + b > p - 1 then [consistency_error] else [])"
    and "isValid (validateScoreEntry d) = (a + b \<le> p - 1)"
proof -
  have t: "throws_errors (parseInt (score_throws d)) = []"
    and a: "approaches_errors (trim (score_approaches d)) = []"
    and b: "putts_errors (trim (score_putts d)) = []"
    using assms by (simp_all add: throws_errors_Nil approaches_errors_Nil putts_errors_Nil)
  from assms t a b show "errors (validateScoreEntry d) = (if a + b > p - 1 then [consistency_error] else [])"
    by (simp add: validateScoreEntry_def Let_def consistency_errors_def)
  from assms t a b show "isValid (validateScoreEntry d) = (a + b \<le> p - 1)"
    by (auto simp add: validateScoreEntry_def Let_def consistency_errors_def)
qed

lemma validate_consistency_only:
  assumes e: "e \<in> set (errors (validateScoreEntry d))" and f: "field e = ''consistency''"
  shows "errors (validateScoreEntry d) = [e] \<and> e = consistency_error
        \<and> trim (score_approaches d) \<noteq> [] \<and> trim (score_putts d) \<noteq> []
        \<and> throws_errors (parseInt (score_throws d)) = []
        \<and> approaches_errors (trim (score_approaches d)) = []
        \<and> putts_errors (trim (score_putts d)) = []"
proof -
  let ?t = "parseInt (score_throws d)" and ?a = "trim (score_approaches d)" and ?b = "trim (score_putts d)"
  let ?es = "throws_errors ?t @ approaches_errors ?a @ putts_errors ?b"
  have notin: "e \<notin> set ?es"
    using f throws_errors_field[of e ?t] approaches_errors_field[of e ?a] putts_errors_field[of e ?b]
    by auto
  have E: "errors (validateScoreEntry d) = ?es @ consistency_errors ?es ?t ?a ?b"
    by (simp add: validateScoreEntry_def Let_def)
  with e notin have "e \<in> set (consistency_errors ?es ?t ?a ?b)" by auto
  with consistency_errors_cases[of ?es ?t ?a ?b]
  have c: "consistency_errors ?es ?t ?a ?b = [consistency_error]" "?es = []" "?a \<noteq> []" "?b \<noteq> []" "e = consistency_error"
    by auto
  show ?thesis
    using c E by simp
qed

lemma validateScoreEntry_throws_out_of_range:
  assumes "parseInt (score_throws d) = Num p" and "p < 1 \<or> 20 < p"
  shows "\<not> isValid (validateScoreEntry d)"
    and "length (filter (\<lambda>e. field e = ''throws'') (errors (validateScoreEntry d))) = 1"
proof -
  let ?t = "parseInt (score_throws d)" and ?a = "trim (score_approaches d)"
    and ?b = "trim (score_putts d)"
  let ?es = "throws_errors ?t @ approaches_errors ?a @ putts_errors ?b"
  have t: "length (throws_errors ?t) = 1" "filter (\<lambda>e. field e = ''throws'') (throws_errors ?t) = throws_errors ?t"
    using assms by (auto simp: throws_errors_def)
  have a: "filter (\<lambda>e. field e = ''throws'') (approaches_errors ?a) = []"
    by (auto simp: filter_empty_conv dest: approaches_errors_field)
  have b: "filter (\<lambda>e. field e = ''throws'') (putts_errors ?b) = []"
    by (auto simp: filter_empty_conv dest: putts_errors_field)
  from t have ne0: "throws_errors ?t \<noteq> []" by auto
  then have ne: "?es \<noteq> []" by simp
  have c: "consistency_errors ?es ?t ?a ?b = []"
    using consistency_errors_cases[of ?es ?t ?a ?b] ne by blast
  have E: "errors (validateScoreEntry d) = ?es @ consistency_errors ?es ?t ?a ?b"
    by (simp add: validateScoreEntry_def Let_def)
  have "isValid (validateScoreEntry d) = (errors (validateScoreEntry d) = [])"
    by (simp add: validateScoreEntry_def Let_def)
  moreover have "errors (validateScoreEntry d) \<noteq> []"
    unfolding E using ne0 by simp
  ultimately show "\<not> isValid (validateScoreEntry d)" by blast
  show "length (filter (\<lambda>e. field e = ''throws'') (errors (validateScoreEntry d))) = 1"
    unfolding E c using t a b by simp
qed


section \<open>Properties of the round session\<close>

lemma findIndex_Some:
  "findIndex P xs = Some i \<Longrightarrow> i < length xs \<and> P (xs ! i) \<and> (\<forall>j<i. \<not> P (xs ! j))"
proof (induction xs arbitrary: i)
  case Nil then show ?case by simp
next
  case (Cons x xs)
  show ?case
  proof (cases "P x")
    case True with Cons.prems show ?thesis by simp
  next
    case False
    with Cons.prems obtain k where k: "findIndex P xs = Some k" "i = Suc k" by auto
    from Cons.IH[OF k(1)] False k(2) show ?thesis
      by (auto simp: nth_Cons split: nat.splits)
  qed
qed

lemma findIndex_None: "findIndex P xs = None \<longleftrightarrow> (\<forall>x \<in> set xs. \<not> P x)"
  by (induction xs) auto

lemma distinct_map_update:
  assumes "distinct (map f xs)" "i < length xs" "f v = f (xs ! i)"
  shows "distinct (map f (xs[i := v]))"
proof -
  have "map f (xs[i := v]) = (map f xs)[i := f (xs ! i)]"
    using assms by (simp add: map_update)
  also have "\<dots> = map f xs" using assms by (simp add: list_update_same_conv)
  finally show ?thesis using assms by simp
qed

lemma hole_number_json_comp: "hole_number \<circ> json_score = hole_number"
  by (rule ext) (simp add: json_score_def)

lemma scores_json_round: "map hole_number (scores (json_round r)) = map hole_number (scores r)"
  by (simp add: json_round_def json_score_def)

lemma hole_number_scoreData: "hole_number (scoreData e d r h i) = i + 1"
  by (simp add: scoreData_def)

lemma update_scores_distinct:
  assumes "distinct (map hole_number ss)" "hole_number sd = i + 1"
  shows "distinct (map hole_number (update_scores sd i ss))"
proof (cases "findIndex (\<lambda>s. hole_number s = i + 1) ss")
  case None
  then have "\<forall>x \<in> set ss. hole_number x \<noteq> i + 1" by (simp add: findIndex_None)
  with None assms show ?thesis by (auto simp: update_scores_def)
next
  case (Some k)
  from findIndex_Some[OF Some] have k: "k < length ss" "hole_number (ss ! k) = i + 1" by auto
  have "distinct (map hole_number (ss[k := sd\<lparr>score_id := score_id (ss ! k)\<rparr>]))"
    by (rule distinct_map_update) (use assms k in simp_all)
  with Some show ?thesis by (simp add: update_scores_def)
qed

lemma saveCurrentHoleScore_Threw:
  "saveCurrentHoleScore e d st = Threw err st' \<Longrightarrow> st' = st"
  by (auto simp: saveCurrentHoleScore_def Let_def split: option.splits)

lemma saveCurrentHoleScore_Returned:
  assumes "saveCurrentHoleScore e d st = Returned st'"
  shows "\<exists>r h. currentRound st = Some r \<and> at_index (holes r) (currentHoleIndex st) = Some h
     \<and> st' = st\<lparr>currentRound := Some (r\<lparr>
          holes := (holes r)[nat (currentHoleIndex st) :=
                      (if isNewCourse r then update_hole_info d h else h)],
          scores := update_scores (scoreData e d r h (currentHoleIndex st))
                      (currentHoleIndex st) (scores r)\<rparr>)\<rparr>"
  using assms
  by (auto simp: saveCurrentHoleScore_def Let_def split: option.splits)

lemma saveCurrentHoleScore_ok:
  assumes "currentRound st = Some r" "at_index (holes r) (currentHoleIndex st) = Some h"
  shows "saveCurrentHoleScore e d st = Returned (st\<lparr>currentRound := Some (r\<lparr>
          holes := (holes r)[nat (currentHoleIndex st) :=
                      (if isNewCourse r then update_hole_info d h else h)],
          scores := update_scores (scoreData e d r h (currentHoleIndex st))
                      (currentHoleIndex st) (scores r)\<rparr>)\<rparr>)"
  using assms by (simp add: saveCurrentHoleScore_def Let_def)

lemma inv_saveCurrentHoleScore:
  assumes "one_entry_per_hole st"
  shows "one_entry_per_hole (state_of (saveCurrentHoleScore e d st))"
proof (cases "saveCurrentHoleScore e d st")
  case (Threw err st')
  then show ?thesis using assms saveCurrentHoleScore_Threw by fastforce
next
  case (Returned st')
  from saveCurrentHoleScore_Returned[OF this] obtain r h where
    r: "currentRound st = Some r" and
    st': "st' = st\<lparr>currentRound := Some (r\<lparr>
          holes := (holes r)[nat (currentHoleIndex st) :=
                      (if isNewCourse r then update_hole_info d h else h)],
          scores := update_scores (scoreData e d r h (currentHoleIndex st))
                      (currentHoleIndex st) (scores r)\<rparr>)\<rparr>" by blast
  from assms r have "distinct (map hole_number (scores r))"
    by (simp add: one_entry_per_hole_def)
  then have "distinct (map hole_number (update_scores (scoreData e d r h (currentHoleIndex st))
                      (currentHoleIndex st) (scores r)))"
    by (rule update_scores_distinct) (simp add: hole_number_scoreData)
  with assms Returned st' show ?thesis
    by (simp add: one_entry_per_hole_def)
qed

lemma highlight_keeps:
  "currentRound (highlight es st) = currentRound st
   \<and> currentHoleIndex (highlight es st) = currentHoleIndex st
   \<and> savedRound (highlight es st) = savedRound st
   \<and> toast (highlight es st) = toast st
   \<and> currentScreen (highlight es st) = currentScreen st"
  by (induction es arbitrary: st) simp_all

lemma showValidationErrors_keeps:
  "currentRound (showValidationErrors es st) = currentRound st"
  "currentHoleIndex (showValidationErrors es st) = currentHoleIndex st"
  "savedRound (showValidationErrors es st) = savedRound st"
  "toast (showValidationErrors es st) = Some (join ''. '' (map message es), ''error'', 4000)"
  by (simp_all add: showValidationErrors_def Let_def highlight_keeps clearValidationErrors_def)

lemma highlight_flags:
  "throws_input_error (highlight es st)
     = (throws_input_error st \<or> (\<exists>e \<in> set es. field e = ''throws''))"
  "approaches_input_error (highlight es st)
     = (approaches_input_error st
        \<or> (\<exists>e \<in> set es. field e = ''approaches'' \<or> field e = ''consistency''))"
  "putts_input_error (highlight es st)
     = (putts_input_error st
        \<or> (\<exists>e \<in> set es. field e = ''putts'' \<or> field e = ''consistency''))"
  by (induction es arbitrary: st; auto)+

lemma showValidationErrors_flags:
  "throws_input_error (showValidationErrors es st) = (\<exists>e \<in> set es. field e = ''throws'')"
  "approaches_input_error (showValidationErrors es st)
     = (\<exists>e \<in> set es. field e = ''approaches'' \<or> field e = ''consistency'')"
  "putts_input_error (showValidationErrors es st)
     = (\<exists>e \<in> set es. field e = ''putts'' \<or> field e = ''consistency'')"
  by (simp_all add: showValidationErrors_def Let_def highlight_flags clearValidationErrors_def)

lemma inv_ui:
  "one_entry_per_hole (showValidationErrors es st) = one_entry_per_hole st"
  "one_entry_per_hole (clearValidationErrors st) = one_entry_per_hole st"
  by (simp_all add: one_entry_per_hole_def showValidationErrors_keeps clearValidationErrors_def)

lemma inv_saveCurrentRoundState:
  "one_entry_per_hole st \<Longrightarrow> one_entry_per_hole (saveCurrentRoundState st)"
  by (auto simp: one_entry_per_hole_def saveCurrentRoundState_def scores_json_round split: option.splits)

lemma renderScoringScreen_state: "state_of (renderScoringScreen st) = st"
  by (simp add: renderScoringScreen_def split: option.splits)

lemma inv_finishRound:
  "one_entry_per_hole st \<Longrightarrow> one_entry_per_hole (state_of (finishRound st))"
  by (auto simp: one_entry_per_hole_def finishRound_def saveCurrentRoundState_def Let_def json_round_def hole_number_json_comp split: option.splits)

lemma inv_set_index:
  "one_entry_per_hole st \<Longrightarrow> currentRound st = Some r \<Longrightarrow>
   one_entry_per_hole (st\<lparr>currentHoleIndex := i, currentRound := Some (r\<lparr>r_currentHoleIndex := j\<rparr>)\<rparr>)"
  by (auto simp: one_entry_per_hole_def split: option.splits)

lemma inv_advance:
  assumes "one_entry_per_hole st" "currentRound st = Some r"
  shows "one_entry_per_hole (state_of (renderScoringScreen (saveCurrentRoundState
           (st\<lparr>currentHoleIndex := i, currentRound := Some (r\<lparr>r_currentHoleIndex := j\<rparr>)\<rparr>))))"
  using inv_saveCurrentRoundState[OF inv_set_index[OF assms]]
  by (simp add: renderScoringScreen_state)

lemma inv_navigateHole:
  assumes "one_entry_per_hole st"
  shows "one_entry_per_hole (state_of (navigateHole e d dir st))"
proof (cases "dir > 0 \<and> \<not> isValid (validateScoreEntry d)")
  case True
  then show ?thesis using assms by (simp add: navigateHole_def Let_def inv_ui)
next
  case False
  define st0 where "st0 = (if dir > 0 then clearValidationErrors st else st)"
  have inv0: "one_entry_per_hole st0" using assms by (simp add: st0_def inv_ui)
  have nav: "navigateHole e d dir st =
     (case saveCurrentHoleScore e d st0 of
           Threw err st1 \<Rightarrow> Threw err st1
         | Returned st1 \<Rightarrow>
             (case currentRound st1 of
                None \<Rightarrow> Threw TypeError st1
              | Some rnd \<Rightarrow>
                  (let newIndex = currentHoleIndex st1 + dir in
                   if newIndex \<ge> 0 \<and> newIndex < holeCount rnd
                   then renderScoringScreen
                          (saveCurrentRoundState
                             (st1\<lparr>currentHoleIndex := newIndex,
                                  currentRound := Some (rnd\<lparr>r_currentHoleIndex := newIndex\<rparr>)\<rparr>))
                   else Returned st1)))"
    using False unfolding navigateHole_def Let_def st0_def by (simp only: if_False)
  from inv_saveCurrentHoleScore[OF inv0, of e d]
  have inv1: "one_entry_per_hole (state_of (saveCurrentHoleScore e d st0))" .
  show ?thesis
  proof (cases "saveCurrentHoleScore e d st0")
    case (Threw err st1)
    with inv1 nav show ?thesis by simp
  next
    case (Returned st1)
    with inv1 have i1: "one_entry_per_hole st1" by simp
    show ?thesis
    proof (cases "currentRound st1")
      case None
      with Returned nav i1 show ?thesis by simp
    next
      case (Some rnd)
      with Returned nav i1 inv_advance[OF i1 Some] show ?thesis
        by (simp add: Let_def)
    qed
  qed
qed

lemma inv_handleSaveHole:
  assumes "one_entry_per_hole st"
  shows "one_entry_per_hole (state_of (handleSaveHole e d st))"
proof (cases "isValid (validateScoreEntry d)")
  case False
  then show ?thesis using assms by (simp add: handleSaveHole_def Let_def inv_ui)
next
  case True
  have inv0: "one_entry_per_hole (clearValidationErrors st)" using assms by (simp add: inv_ui)
  from inv_saveCurrentHoleScore[OF inv0, of e d]
  have inv1: "one_entry_per_hole (state_of (saveCurrentHoleScore e d (clearValidationErrors st)))" .
  show ?thesis
  proof (cases "saveCurrentHoleScore e d (clearValidationErrors st)")
    case (Threw err st1)
    with inv1 True show ?thesis by (simp add: handleSaveHole_def)
  next
    case (Returned st1)
    with inv1 have i1: "one_entry_per_hole st1" by simp
    show ?thesis
    proof (cases "currentRound st1")
      case None
      with Returned True i1 show ?thesis by (simp add: handleSaveHole_def)
    next
      case (Some rnd)
      with Returned True i1 inv_advance[OF i1 Some] inv_finishRound[OF i1] show ?thesis
        by (simp add: handleSaveHole_def Let_def)
    qed
  qed
qed

lemma inv_handleResumeRound:
  assumes "one_entry_per_hole st"
  shows "one_entry_per_hole (state_of (handleResumeRound st))"
  using assms
  by (auto simp: handleResumeRound_def Let_def renderScoringScreen_state one_entry_per_hole_def
      split: option.splits)

lemma reachable_inv: "reachable st \<Longrightarrow> one_entry_per_hole st"
proof (induction rule: reachable.induct)
  case (start st r)
  then show ?case by (simp add: one_entry_per_hole_def json_round_def)
qed (simp_all add: inv_navigateHole inv_handleSaveHole inv_handleResumeRound)


section \<open>Properties of the operation queue\<close>

lemma process_loop_attempts:
  "process_loop gw g failed pending =
     (failed @ map fst (filter (\<lambda>a. \<not> snd a) (attempts gw g pending)),
      gateway_after gw g pending)"
proof (induction pending arbitrary: g failed)
  case Nil
  show ?case by (simp add: gateway_after_def)
next
  case (Cons opn rest)
  obtain ok g' where r: "run_operation gw g (operation opn) = (ok, g')"
    by (cases "run_operation gw g (operation opn)")
  show ?case
  proof (cases ok)
    case True
    with r Cons.IH[of g' failed] show ?thesis by (simp add: gateway_after_def)
  next
    case False
    with r Cons.IH[of g' "failed @ [opn]"] show ?thesis by (simp add: gateway_after_def)
  qed
qed

lemma attempts_fst: "map fst (attempts gw g pending) = pending"
proof (induction pending arbitrary: g)
  case Nil show ?case by simp
next
  case (Cons opn rest)
  obtain ok g' where r: "run_operation gw g (operation opn) = (ok, g')"
    by (cases "run_operation gw g (operation opn)")
  with Cons.IH[of g'] show ?case by simp
qed

lemma no_failed_iff: "(filter (\<lambda>a. \<not> snd a) xs = []) = list_all snd xs"
  by (induction xs) auto


lemma logged_apply:
  "logged gw (g, lg) req = (fst (gw g req), (snd (gw g req), lg @ [(req, fst (gw g req) \<noteq> None)]))"
  by (simp add: logged_def split: prod.splits)

text \<open>One request: the shape shared by saveCourse and saveRound.\<close>

lemma saveCourse_logged:
  "saveCourse (logged gw) (g, lg) c =
     (fst (saveCourse gw g c), (snd (saveCourse gw g c),
        lg @ [(CreateRow sheets_courses (prepareRowData c headers_courses), fst (saveCourse gw g c))]))"
  by (cases "gw g (CreateRow sheets_courses (prepareRowData c headers_courses))")
     (auto simp: saveCourse_def logged_apply split: option.splits)

lemma saveRound_logged:
  "saveRound (logged gw) (g, lg) c =
     (fst (saveRound gw g c), (snd (saveRound gw g c),
        lg @ [(CreateRow sheets_rounds (prepareRowData c headers_rounds), fst (saveRound gw g c))]))"
  by (cases "gw g (CreateRow sheets_rounds (prepareRowData c headers_rounds))")
     (auto simp: saveRound_def logged_apply split: option.splits)

lemma saveHoles_logged:
  "\<exists>l. (\<forall>lg. saveHoles (logged gw) (g, lg) hs
            = (fst (saveHoles gw g hs), (snd (saveHoles gw g hs), lg @ l)))
       \<and> list_all snd l = fst (saveHoles gw g hs)
       \<and> (fst (saveHoles gw g hs) \<longrightarrow>
            map fst l = map (\<lambda>hole. CreateRow sheets_holes (prepareRowData hole headers_holes)) hs)"
proof (induction hs arbitrary: g)
  case Nil
  show ?case by (rule exI[of _ "[]"]) simp
next
  case (Cons h hs)
  let ?req = "CreateRow sheets_holes (prepareRowData h headers_holes)"
  obtain resp g' where r: "gw g ?req = (resp, g')" by (cases "gw g ?req")
  show ?case
  proof (cases resp)
    case None
    with r show ?thesis
      by (intro exI[of _ "[(?req, False)]"]) (simp add: logged_apply)
  next
    case (Some rows)
    from Cons.IH[of g'] obtain l where
      l: "\<forall>lg. saveHoles (logged gw) (g', lg) hs
            = (fst (saveHoles gw g' hs), (snd (saveHoles gw g' hs), lg @ l))"
         "list_all snd l = fst (saveHoles gw g' hs)"
         "fst (saveHoles gw g' hs) \<longrightarrow>
            map fst l = map (\<lambda>hole. CreateRow sheets_holes (prepareRowData hole headers_holes)) hs"
      by blast
    with r Some show ?thesis
      by (intro exI[of _ "(?req, True) # l"]) (simp add: logged_apply)
  qed
qed

lemma saveScores_logged:
  "\<exists>l. (\<forall>lg. saveScores (logged gw) (g, lg) hs
            = (fst (saveScores gw g hs), (snd (saveScores gw g hs), lg @ l)))
       \<and> list_all snd l = fst (saveScores gw g hs)
       \<and> (fst (saveScores gw g hs) \<longrightarrow>
            map fst l = map (\<lambda>score. CreateRow sheets_scores (prepareRowData score headers_scores)) hs)"
proof (induction hs arbitrary: g)
  case Nil
  show ?case by (rule exI[of _ "[]"]) simp
next
  case (Cons h hs)
  let ?req = "CreateRow sheets_scores (prepareRowData h headers_scores)"
  obtain resp g' where r: "gw g ?req = (resp, g')" by (cases "gw g ?req")
  show ?case
  proof (cases resp)
    case None
    with r show ?thesis
      by (intro exI[of _ "[(?req, False)]"]) (simp add: logged_apply)
  next
    case (Some rows)
    from Cons.IH[of g'] obtain l where
      l: "\<forall>lg. saveScores (logged gw) (g', lg) hs
            = (fst (saveScores gw g' hs), (snd (saveScores gw g' hs), lg @ l))"
         "list_all snd l = fst (saveScores gw g' hs)"
         "fst (saveScores gw g' hs) \<longrightarrow>
            map fst l = map (\<lambda>score. CreateRow sheets_scores (prepareRowData score headers_scores)) hs"
      by blast
    with r Some show ?thesis
      by (intro exI[of _ "(?req, True) # l"]) (simp add: logged_apply)
  qed
qed

lemma updateRound_logged:
  "\<exists>l. (\<forall>lg. updateRound (logged gw) (g, lg) rnd
            = (fst (updateRound gw g rnd), (snd (updateRound gw g rnd), lg @ l)))
       \<and> list_all snd l = fst (updateRound gw g rnd)
       \<and> (fst (updateRound gw g rnd) \<longrightarrow> map fst l = requests_of gw g (UpdateRound rnd))"
proof -
  obtain resp g' where r: "gw g (GetRows sheets_rounds) = (resp, g')"
    by (cases "gw g (GetRows sheets_rounds)")
  show ?thesis
  proof (cases resp)
    case None
    with r show ?thesis
      by (intro exI[of _ "[(GetRows sheets_rounds, False)]"])
         (simp add: updateRound_def logged_apply)
  next
    case (Some allRounds)
    show ?thesis
    proof (cases "findIndex (\<lambda>r. map_of r ''round_id'' = map_of rnd ''round_id'') allRounds")
      case None
      with r Some show ?thesis
        by (intro exI[of _ "[(GetRows sheets_rounds, True)]"])
           (simp add: updateRound_def logged_apply rows_answered_def)
    next
      case (Some rowIndex)
      let ?u = "UpdateRow sheets_rounds (int rowIndex + 2) (prepareRowData rnd headers_rounds)"
      obtain resp2 g'' where r2: "gw g' ?u = (resp2, g'')" by (cases "gw g' ?u")
      from r \<open>resp = Some allRounds\<close> Some r2 show ?thesis
        by (intro exI[of _ "[(GetRows sheets_rounds, True), (?u, resp2 \<noteq> None)]"])
           (auto simp: updateRound_def logged_apply rows_answered_def split: option.splits)
    qed
  qed
qed

lemma updateCourseLastPlayed_logged:
  "\<exists>l. (\<forall>lg. updateCourseLastPlayed (logged gw) (g, lg) (map_of dat ''courseId'') (map_of dat ''date'')
            = (fst (updateCourseLastPlayed gw g (map_of dat ''courseId'') (map_of dat ''date'')),
               (snd (updateCourseLastPlayed gw g (map_of dat ''courseId'') (map_of dat ''date'')), lg @ l)))
       \<and> list_all snd l = fst (updateCourseLastPlayed gw g (map_of dat ''courseId'') (map_of dat ''date''))
       \<and> (fst (updateCourseLastPlayed gw g (map_of dat ''courseId'') (map_of dat ''date''))
            \<longrightarrow> map fst l = requests_of gw g (UpdateCourseLastPlayed dat))"
proof -
  obtain resp g' where r: "gw g (GetRows sheets_courses) = (resp, g')"
    by (cases "gw g (GetRows sheets_courses)")
  show ?thesis
  proof (cases resp)
    case None
    with r show ?thesis
      by (intro exI[of _ "[(GetRows sheets_courses, False)]"])
         (simp add: updateCourseLastPlayed_def logged_apply)
  next
    case (Some allCourses)
    show ?thesis
    proof (cases "findIndex (\<lambda>c. map_of c ''course_id'' = map_of dat ''courseId'') allCourses")
      case None
      with r Some show ?thesis
        by (intro exI[of _ "[(GetRows sheets_courses, True)]"])
           (simp add: updateCourseLastPlayed_def logged_apply rows_answered_def)
    next
      case (Some rowIndex)
      let ?u = "UpdateRow sheets_courses (int rowIndex + 2)
               (prepareRowData
                  (AList.update ''last_played''
                     (case map_of dat ''date'' of None \<Rightarrow> PNull | Some v \<Rightarrow> v)
                     (allCourses ! rowIndex))
                  headers_courses)"
      obtain resp2 g'' where r2: "gw g' ?u = (resp2, g'')" by (cases "gw g' ?u")
      from r \<open>resp = Some allCourses\<close> Some r2 show ?thesis
        by (intro exI[of _ "[(GetRows sheets_courses, True), (?u, resp2 \<noteq> None)]"])
           (auto simp: updateCourseLastPlayed_def logged_apply rows_answered_def Let_def
                 split: option.splits)
    qed
  qed
qed

lemma run_operation_logged:
  "\<exists>l. (\<forall>lg. run_operation (logged gw) (g, lg) opn
            = (fst (run_operation gw g opn), (snd (run_operation gw g opn), lg @ l)))
       \<and> list_all snd l = fst (run_operation gw g opn)
       \<and> (fst (run_operation gw g opn) \<longrightarrow> map fst l = requests_of gw g opn)"
proof (cases opn)
  case (SaveCourse dat)
  show ?thesis unfolding SaveCourse
    by (rule exI[of _ "[(CreateRow sheets_courses (prepareRowData dat headers_courses),
                         fst (saveCourse gw g dat))]"])
       (simp add: saveCourse_logged)
next
  case (SaveHoles dat)
  show ?thesis unfolding SaveHoles using saveHoles_logged[of gw g dat] by simp
next
  case (SaveRound dat)
  show ?thesis unfolding SaveRound
    by (rule exI[of _ "[(CreateRow sheets_rounds (prepareRowData dat headers_rounds),
                         fst (saveRound gw g dat))]"])
       (simp add: saveRound_logged)
next
  case (UpdateRound dat)
  show ?thesis unfolding UpdateRound using updateRound_logged[of gw g dat] by simp
next
  case (SaveScores dat)
  show ?thesis unfolding SaveScores using saveScores_logged[of gw g dat] by simp
next
  case (UpdateCourseLastPlayed dat)
  show ?thesis unfolding UpdateCourseLastPlayed
    using updateCourseLastPlayed_logged[of gw g dat] by simp
qed

lemma calls_run:
  "run_operation (logged gw) (g, lg) opn
     = (fst (run_operation gw g opn), (snd (run_operation gw g opn), lg @ calls gw g opn))"
  and calls_all: "list_all snd (calls gw g opn) = fst (run_operation gw g opn)"
  and calls_requests: "fst (run_operation gw g opn) \<Longrightarrow> map fst (calls gw g opn) = requests_of gw g opn"
proof -
  from run_operation_logged[of gw g opn] obtain l where
    l: "\<And>lg. run_operation (logged gw) (g, lg) opn
            = (fst (run_operation gw g opn), (snd (run_operation gw g opn), lg @ l))"
       "list_all snd l = fst (run_operation gw g opn)"
       "fst (run_operation gw g opn) \<longrightarrow> map fst l = requests_of gw g opn"
    by blast
  have c: "calls gw g opn = l" by (simp add: calls_def l(1))
  show "run_operation (logged gw) (g, lg) opn
     = (fst (run_operation gw g opn), (snd (run_operation gw g opn), lg @ calls gw g opn))"
    by (simp add: c l(1))
  show "list_all snd (calls gw g opn) = fst (run_operation gw g opn)" by (simp add: c l(2))
  show "fst (run_operation gw g opn) \<Longrightarrow> map fst (calls gw g opn) = requests_of gw g opn"
    using l(3) by (simp add: c)
qed

lemma always_succeeds_obtain:
  assumes "always_succeeds gw"
  obtains rows g' where "gw g req = (Some rows, g')"
proof -
  from assms have "fst (gw g req) \<noteq> None" by (simp add: always_succeeds_def)
  then show ?thesis using that by (cases "gw g req") auto
qed

lemma saveHoles_succeeds: "always_succeeds gw \<Longrightarrow> fst (saveHoles gw g hs)"
proof (induction hs arbitrary: g)
  case Nil show ?case by simp
next
  case (Cons h hs)
  obtain rows g' where "gw g (CreateRow sheets_holes (prepareRowData h headers_holes)) = (Some rows, g')"
    using always_succeeds_obtain[OF Cons.prems] by blast
  with Cons.IH[OF Cons.prems, of g'] show ?case by simp
qed

lemma saveScores_succeeds: "always_succeeds gw \<Longrightarrow> fst (saveScores gw g hs)"
proof (induction hs arbitrary: g)
  case Nil show ?case by simp
next
  case (Cons h hs)
  obtain rows g' where "gw g (CreateRow sheets_scores (prepareRowData h headers_scores)) = (Some rows, g')"
    using always_succeeds_obtain[OF Cons.prems] by blast
  with Cons.IH[OF Cons.prems, of g'] show ?case by simp
qed

lemma always_succeeds_None: "always_succeeds gw \<Longrightarrow> gw g req = (None, g') \<Longrightarrow> False"
proof -
  assume a: "always_succeeds gw" and b: "gw g req = (None, g')"
  from a have "fst (gw g req) \<noteq> None" unfolding always_succeeds_def by blast
  with b show False by simp
qed

lemma run_operation_succeeds:
  assumes "always_succeeds gw"
  shows "fst (run_operation gw g opn)"
proof (cases opn)
  case (SaveCourse dat)
  then show ?thesis using assms
    by (auto simp: saveCourse_def split: prod.splits option.splits dest: always_succeeds_None)
next
  case (SaveHoles dat)
  then show ?thesis using assms by (simp add: saveHoles_succeeds)
next
  case (SaveRound dat)
  then show ?thesis using assms
    by (auto simp: saveRound_def split: prod.splits option.splits dest: always_succeeds_None)
next
  case (UpdateRound dat)
  then show ?thesis using assms
    by (auto simp: updateRound_def split: prod.splits option.splits dest: always_succeeds_None)
next
  case (SaveScores dat)
  then show ?thesis using assms by (simp add: saveScores_succeeds)
next
  case (UpdateCourseLastPlayed dat)
  then show ?thesis using assms
    by (auto simp: updateCourseLastPlayed_def Let_def split: prod.splits option.splits
        dest: always_succeeds_None)
qed

lemma getPendingSync_addPendingSync:
  "getPendingSync (addPendingSync now opn ls)
     = getPendingSync ls @ [\<lparr>operation = opn, timestamp = now\<rparr>]"
  by (simp add: addPendingSync_def getPendingSync_def)

lemma getPendingSync_enqueue_all:
  "getPendingSync (enqueue_all ops ls)
     = getPendingSync ls @ map (\<lambda>(now, opn). \<lparr>operation = opn, timestamp = now\<rparr>) ops"
  unfolding enqueue_all_def
proof (induction ops arbitrary: ls)
  case Nil show ?case by simp
next
  case (Cons x xs)
  show ?case using Cons.IH[of "addPendingSync (fst x) (snd x) ls"]
    by (simp add: getPendingSync_addPendingSync case_prod_beta)
qed

lemma attempts_all_succeed:
  assumes "\<And>g opn. fst (run_operation gw g opn)"
  shows "filter (\<lambda>a. \<not> snd a) (attempts gw g pending) = []"
proof (induction pending arbitrary: g)
  case Nil show ?case by simp
next
  case (Cons opn rest)
  obtain ok g' where r: "run_operation gw g (operation opn) = (ok, g')"
    by (cases "run_operation gw g (operation opn)")
  with assms[of g "operation opn"] have "ok" by simp
  with r Cons.IH[of g'] show ?case by simp
qed

lemma gateway_after_logged:
  assumes "always_succeeds gw"
  shows "\<exists>l. gateway_after (logged gw) (g, lg) pending = (gateway_after gw g pending, lg @ l)
     \<and> map fst l = replay_requests gw g pending \<and> list_all snd l"
proof (induction pending arbitrary: g lg)
  case Nil
  show ?case by (simp add: gateway_after_def)
next
  case (Cons opn rest)
  let ?g' = "snd (run_operation gw g (operation opn))"
  let ?c = "calls gw g (operation opn)"
  have ok: "fst (run_operation gw g (operation opn))" by (rule run_operation_succeeds[OF assms])
  from Cons.IH[of ?g' "lg @ ?c"] obtain l where
    l: "gateway_after (logged gw) (?g', lg @ ?c) rest = (gateway_after gw ?g' rest, (lg @ ?c) @ l)"
       "map fst l = replay_requests gw ?g' rest" "list_all snd l"
    by blast
  have step: "gateway_after (logged gw) (g, lg) (opn # rest)
      = gateway_after (logged gw) (?g', lg @ ?c) rest"
    by (simp add: gateway_after_def calls_run)
  have step2: "gateway_after gw g (opn # rest) = gateway_after gw ?g' rest"
    by (simp add: gateway_after_def)
  show ?case
    apply (rule exI[of _ "?c @ l"])
    using l ok calls_all[of gw g "operation opn"] calls_requests[of gw g "operation opn"]
    by (simp add: step step2)
qed


section \<open>Properties of the record store and of the statistics\<close>

lemma findIndex_update_same:
  "findIndex P xs = Some i \<Longrightarrow> P v \<Longrightarrow> findIndex P (xs[i := v]) = Some i"
proof (induction xs arbitrary: i)
  case Nil then show ?case by simp
next
  case (Cons x xs)
  show ?case
  proof (cases "P x")
    case True
    with Cons.prems show ?thesis by simp
  next
    case False
    with Cons.prems obtain k where k: "findIndex P xs = Some k" "i = Suc k" by auto
    from Cons.IH[OF k(1) Cons.prems(2)] False k show ?thesis by simp
  qed
qed

lemma findIndex_append_new:
  "findIndex P xs = None \<Longrightarrow> P v \<Longrightarrow> findIndex P (xs @ [v]) = Some (length xs)"
  by (induction xs) (auto split: if_splits)

lemma store_record_twice:
  "store_record k v2 (store_record k v1 xs) = store_record k v2 xs"
  by (induction xs) auto

lemma storage_get_set:
  "storage_get (storage_set key v st) key = v"
  "storage_set key v2 (storage_set key v1 st) = storage_set key v2 st"
  "db (storage_set key v st) = db st"
  by (simp_all add: storage_get_def storage_set_def)

lemma put_fallback_twice:
  assumes "db st = None"
    and "map_of item2 (butlast storeName @ ''_id'') = map_of item (butlast storeName @ ''_id'')"
  shows "snd (put f2 storeName item2 (snd (put f1 storeName item st)))
           = snd (put f storeName item2 st)"
proof (cases "get_or_empty st (storageKeys storeName)")
  case (Items items)
  let ?kf = "butlast storeName @ ''_id''"
  let ?P = "\<lambda>i. map_of i ?kf = map_of item ?kf"
  let ?key = "storageKeys storeName"
  show ?thesis
  proof (cases "findIndex ?P items")
    case None
    have 1: "snd (put f1 storeName item st) = storage_set ?key (Items (items @ [item])) st"
      using assms Items None by (simp add: put_def Let_def)
    have g: "get_or_empty (storage_set ?key (Items (items @ [item])) st) ?key = Items (items @ [item])"
      by (simp add: get_or_empty_def storage_get_set)
    have f: "findIndex ?P (items @ [item]) = Some (length items)"
      using None by (simp add: findIndex_append_new)
    have 2: "snd (put f2 storeName item2 (storage_set ?key (Items (items @ [item])) st))
        = storage_set ?key (Items (items @ [item2])) st"
      using assms g f by (simp add: put_def Let_def storage_get_set)
    have 3: "snd (put f storeName item2 st) = storage_set ?key (Items (items @ [item2])) st"
      using assms Items None by (simp add: put_def Let_def)
    show ?thesis by (simp add: 1 2 3)
  next
    case (Some i)
    from findIndex_Some[OF Some] have i: "i < length items" by simp
    have 1: "snd (put f1 storeName item st) = storage_set ?key (Items (items[i := item])) st"
      using assms Items Some by (simp add: put_def Let_def)
    have g: "get_or_empty (storage_set ?key (Items (items[i := item])) st) ?key = Items (items[i := item])"
      by (simp add: get_or_empty_def storage_get_set)
    have f: "findIndex ?P (items[i := item]) = Some i"
      using Some by (simp add: findIndex_update_same)
    have 2: "snd (put f2 storeName item2 (storage_set ?key (Items (items[i := item])) st))
        = storage_set ?key (Items (items[i := item2])) st"
      using assms g f by (simp add: put_def Let_def storage_get_set)
    have 3: "snd (put f storeName item2 st) = storage_set ?key (Items (items[i := item2])) st"
      using assms Items Some by (simp add: put_def Let_def)
    show ?thesis by (simp add: 1 2 3)
  qed
next
  case (Object x)
  then show ?thesis using assms by (simp add: put_def Let_def)
next
  case (Scalar x)
  then show ?thesis using assms by (simp add: put_def Let_def)
qed

lemma idb_put_twice:
  assumes "map_of item (keyPath os) \<noteq> None"
    and "map_of item2 (keyPath os) = map_of item (keyPath os)"
  shows "(case idb_put item os of
            Inl err \<Rightarrow> idb_put item2 os = Inl err
          | Inr os' \<Rightarrow> keyPath os' = keyPath os \<and> idb_put item2 os' = idb_put item2 os
                        \<and> (\<exists>os2. idb_put item2 os = Inr os2))"
proof -
  from assms(1) obtain v where v: "map_of item (keyPath os) = Some v" by auto
  show ?thesis
    using v assms(2)
    by (cases v) (auto simp: idb_put_def store_record_twice)
qed

lemma put_idb_twice:
  assumes "db st = Some d" and "d storeName = Some os"
    and "map_of item (keyPath os) \<noteq> None"
    and "map_of item2 (keyPath os) = map_of item (keyPath os)"
  shows "snd (put False storeName item2 (snd (put False storeName item st)))
           = snd (put False storeName item2 st)"
proof (cases "idb_put item os")
  case (Inl err)
  with idb_put_twice[OF assms(3,4)] have "idb_put item2 os = Inl err" by simp
  with Inl assms show ?thesis by (simp add: put_def)
next
  case (Inr os')
  with idb_put_twice[OF assms(3,4)] obtain os2 where
    t: "idb_put item2 os' = idb_put item2 os" "idb_put item2 os = Inr os2" by auto
  have 1: "snd (put False storeName item st) = st\<lparr>db := Some (d(storeName \<mapsto> os'))\<rparr>"
    using Inr assms by (simp add: put_def)
  show ?thesis unfolding 1 using assms t
    by (simp add: put_def)
qed

lemma put_failed_request:
  "db st = Some d \<Longrightarrow> snd (put True storeName item st) = st"
  by (auto simp: put_def split: option.splits sum.splits)

lemma put_indexed_backend:
  "db st = Some d \<Longrightarrow> \<exists>d'. db (snd (put f storeName item st)) = Some d'"
  by (auto simp: put_def split: option.splits sum.splits)

lemma length_store_record_twice:
  "length (store_record k v2 (store_record k v1 xs)) = length (store_record k v1 xs)"
  by (induction xs) auto

lemma count_fallback:
  assumes "db st = None"
    and "map_of item2 (butlast storeName @ ''_id'') = map_of item (butlast storeName @ ''_id'')"
  shows "record_count storeName (snd (put False storeName item2 (snd (put False storeName item st))))
           = record_count storeName (snd (put False storeName item st))"
proof (cases "get_or_empty st (storageKeys storeName)")
  case (Items items)
  let ?kf = "butlast storeName @ ''_id''"
  let ?P = "\<lambda>i. map_of i ?kf = map_of item ?kf"
  let ?key = "storageKeys storeName"
  have cnt: "\<And>xs. record_count storeName (storage_set ?key (Items xs) st) = length xs"
    using assms(1) by (simp add: record_count_def getAll_def get_or_empty_def storage_get_set)
  show ?thesis
  proof (cases "findIndex ?P items")
    case None
    have 1: "snd (put False storeName item st) = storage_set ?key (Items (items @ [item])) st"
      using assms Items None by (simp add: put_def Let_def)
    have 2: "snd (put False storeName item2 st) = storage_set ?key (Items (items @ [item2])) st"
      using assms Items None by (simp add: put_def Let_def)
    from put_fallback_twice[OF assms, of False False False]
    show ?thesis by (simp add: 1 2 cnt)
  next
    case (Some i)
    have 1: "snd (put False storeName item st) = storage_set ?key (Items (items[i := item])) st"
      using assms Items Some by (simp add: put_def Let_def)
    have 2: "snd (put False storeName item2 st) = storage_set ?key (Items (items[i := item2])) st"
      using assms Items Some by (simp add: put_def Let_def)
    from put_fallback_twice[OF assms, of False False False]
    show ?thesis by (simp add: 1 2 cnt)
  qed
next
  case (Object x)
  then show ?thesis using assms by (simp add: put_def Let_def)
next
  case (Scalar x)
  then show ?thesis using assms by (simp add: put_def Let_def)
qed

lemma count_idb:
  assumes "db st = Some d" and "d storeName = Some os"
    and "map_of item (keyPath os) \<noteq> None"
    and "map_of item2 (keyPath os) = map_of item (keyPath os)"
  shows "record_count storeName (snd (put False storeName item2 (snd (put False storeName item st))))
           = record_count storeName (snd (put False storeName item st))"
proof (cases "idb_put item os")
  case (Inl err)
  with idb_put_twice[OF assms(3,4)] have "idb_put item2 os = Inl err" by simp
  with Inl assms show ?thesis by (simp add: put_def)
next
  case (Inr os')
  from assms(3) obtain v where v: "map_of item (keyPath os) = Some v" by auto
  have 1: "snd (put False storeName item st) = st\<lparr>db := Some (d(storeName \<mapsto> os'))\<rparr>"
    using Inr assms by (simp add: put_def)
  have len: "\<exists>os2. idb_put item2 os' = Inr os2 \<and> length (records os2) = length (records os')"
    using v assms(4) Inr
    by (cases v) (auto simp: idb_put_def length_store_record_twice)
  then obtain os2 where os2: "idb_put item2 os' = Inr os2" "length (records os2) = length (records os')"
    by blast
  show ?thesis unfolding 1 using assms os2
    by (simp add: put_def record_count_def getAll_def)
qed


lemma find_update_first:
  "findIndex P xs = Some i \<Longrightarrow> P v \<Longrightarrow> find P (xs[i := v]) = Some v"
proof (induction xs arbitrary: i)
  case Nil then show ?case by simp
next
  case (Cons x xs)
  show ?case
  proof (cases "P x")
    case True
    with Cons.prems show ?thesis by simp
  next
    case False
    with Cons.prems obtain k where k: "findIndex P xs = Some k" "i = Suc k" by auto
    from Cons.IH[OF k(1) Cons.prems(2)] False k show ?thesis by simp
  qed
qed

lemma find_append_new:
  "findIndex P xs = None \<Longrightarrow> P v \<Longrightarrow> find P (xs @ [v]) = Some v"
  by (induction xs) (auto split: if_splits)

lemma find_update_other:
  "i < length xs \<Longrightarrow> \<not> Q (xs ! i) \<Longrightarrow> \<not> Q v \<Longrightarrow> find Q (xs[i := v]) = find Q xs"
proof (induction xs arbitrary: i)
  case Nil then show ?case by simp
next
  case (Cons x xs)
  then show ?case by (cases i) auto
qed

lemma find_append_other: "\<not> Q v \<Longrightarrow> find Q (xs @ [v]) = find Q xs"
  by (induction xs) auto

lemma map_of_store_record_same: "map_of (store_record k v xs) k = Some v"
  by (induction xs) auto

lemma map_of_store_record_other: "k' \<noteq> k \<Longrightarrow> map_of (store_record k v xs) k' = map_of xs k'"
  by (induction xs) auto

lemma store_record_member: "(k, v) \<in> set (store_record k v xs)"
  by (induction xs) auto

lemma idb_key_of_inj: "idb_key_of a = Some k \<Longrightarrow> idb_key_of b = Some k \<Longrightarrow> a = b"
  by (cases a; cases b) auto

lemma idb_put_records:
  assumes "map_of item (keyPath os) = Some v" "idb_put item os = Inr os'"
  shows "\<exists>k. idb_key_of v = Some k \<and> records os' = store_record k item (records os)"
  using assms by (cases v) (auto simp: idb_put_def)

lemma put_then_get_fallback:
  assumes "db st = None" and "map_of item (butlast storeName @ ''_id'') = Some v"
    and "fst (put False storeName item st) = Inr True"
  shows "getById False storeName v (snd (put False storeName item st)) = Inr (Some item)"
    and "v' \<noteq> v \<Longrightarrow> getById False storeName v' (snd (put False storeName item st))
            = getById False storeName v' st"
    and "\<exists>xs. getAll False storeName (snd (put False storeName item st)) = Inr (Items xs)
            \<and> item \<in> set xs"
proof -
  let ?kf = "butlast storeName @ ''_id''"
  let ?key = "storageKeys storeName"
  let ?P = "\<lambda>i. map_of i ?kf = map_of item ?kf"
  let ?Pv = "\<lambda>i. map_of i ?kf = Some v"
  let ?Q = "\<lambda>i. map_of i ?kf = Some v'"
  from assms(1,3) obtain items where items: "get_or_empty st ?key = Items items"
    by (cases "get_or_empty st ?key") (auto simp: put_def Let_def)
  have PPv: "?P = ?Pv" using assms(2) by simp
  define items' where "items' = (case findIndex ?P items of
                     Some index \<Rightarrow> items[index := item]
                   | None \<Rightarrow> items @ [item])"
  have after: "snd (put False storeName item st) = storage_set ?key (Items items') st"
    using assms(1) items by (simp add: put_def Let_def items'_def)
  have g: "get_or_empty (storage_set ?key (Items items') st) ?key = Items items'"
    by (simp add: get_or_empty_def storage_get_set)
  have d: "db (storage_set ?key (Items items') st) = None"
    using assms(1) by (simp add: storage_get_set)
  have f1: "find ?Pv items' = Some item"
  proof (cases "findIndex ?P items")
    case None
    then show ?thesis unfolding items'_def PPv using assms(2) by (simp add: find_append_new)
  next
    case (Some i)
    then show ?thesis unfolding items'_def PPv using assms(2) by (simp add: find_update_first)
  qed
  show "getById False storeName v (snd (put False storeName item st)) = Inr (Some item)"
    unfolding after by (simp add: getById_def d g f1)
  have mem: "item \<in> set items'"
  proof (cases "findIndex ?P items")
    case None
    then show ?thesis by (simp add: items'_def)
  next
    case (Some i)
    from findIndex_Some[OF Some] have "i < length items" by simp
    with Some show ?thesis by (simp add: items'_def set_update_memI)
  qed
  show "\<exists>xs. getAll False storeName (snd (put False storeName item st)) = Inr (Items xs)
            \<and> item \<in> set xs"
    unfolding after using mem by (simp add: getAll_def d g)
  show "getById False storeName v' (snd (put False storeName item st))
            = getById False storeName v' st" if ne: "v' \<noteq> v"
  proof -
    have nq: "\<not> ?Q item" using assms(2) ne by simp
    have "find ?Q items' = find ?Q items"
    proof (cases "findIndex ?P items")
      case None
      then show ?thesis using nq by (simp add: items'_def find_append_other)
    next
      case (Some i)
      from findIndex_Some[OF Some] have i: "i < length items" "?P (items ! i)" by simp_all
      with assms(2) ne have "\<not> ?Q (items ! i)" by simp
      with Some i nq show ?thesis by (simp add: items'_def find_update_other)
    qed
    then show ?thesis
      unfolding after using assms(1) items by (simp add: getById_def d g)
  qed
qed

lemma put_then_get_idb:
  assumes "db st = Some d" and "d storeName = Some os"
    and "map_of item (keyPath os) = Some v"
    and "fst (put False storeName item st) = Inr True"
  shows "getById False storeName v (snd (put False storeName item st)) = Inr (Some item)"
    and "v' \<noteq> v \<Longrightarrow> getById False storeName v' (snd (put False storeName item st))
            = getById False storeName v' st"
    and "\<exists>xs. getAll False storeName (snd (put False storeName item st)) = Inr (Items xs)
            \<and> item \<in> set xs"
proof -
  from assms(1,2,4) obtain os' where os': "idb_put item os = Inr os'"
    by (cases "idb_put item os") (auto simp: put_def)
  from idb_put_records[OF assms(3) os'] obtain k where
    k: "idb_key_of v = Some k" "records os' = store_record k item (records os)" by blast
  have after: "snd (put False storeName item st) = st\<lparr>db := Some (d(storeName \<mapsto> os'))\<rparr>"
    using assms(1,2) os' by (simp add: put_def)
  show "getById False storeName v (snd (put False storeName item st)) = Inr (Some item)"
    unfolding after using k by (simp add: getById_def map_of_store_record_same)
  have "(k, item) \<in> set (records os')" unfolding k(2) by (rule store_record_member)
  then have "item \<in> snd ` set (records os')" by force
  then show "\<exists>xs. getAll False storeName (snd (put False storeName item st)) = Inr (Items xs)
            \<and> item \<in> set xs"
    unfolding after by (simp add: getAll_def)
  show "getById False storeName v' (snd (put False storeName item st))
            = getById False storeName v' st" if ne: "v' \<noteq> v"
  proof (cases "idb_key_of v'")
    case None
    then show ?thesis unfolding after using assms(1,2) by (simp add: getById_def)
  next
    case (Some k')
    with k(1) ne have "k' \<noteq> k" using idb_key_of_inj by blast
    with Some k(2) show ?thesis
      unfolding after using assms(1,2) by (simp add: getById_def map_of_store_record_other)
  qed
qed


lemma getAll_fallback:
  assumes "db st = None"
  shows "\<exists>v. getAll f storeName st = Inr v"
    and "localStorage st (storageKeys storeName) = None \<Longrightarrow> getAll f storeName st = Inr (Items [])"
  using assms by (simp_all add: getAll_def get_or_empty_def storage_get_def)

lemma getAll_request_fails:
  "db st = Some d \<Longrightarrow> d storeName = Some os \<Longrightarrow> getAll True storeName st = Inr (Items [])"
  by (simp add: getAll_def)

lemma length_filter_carrying:
  "length (filter valid_number (map f (filter (\<lambda>s. hole_id s = h) ss)))
     = length (filter (\<lambda>s. hole_id s = h \<and> valid_number (f s)) ss)"
  by (induction ss) auto

lemma filter_hole_empty:
  "filter (\<lambda>s. hole_id s = h) ss = [] \<Longrightarrow> filter (\<lambda>s. hole_id s = h \<and> P s) ss = []"
  by (auto simp: filter_empty_conv)

lemma findIndex_distinct:
  assumes "distinct (map f xs)" "i < length xs" "f (xs ! i) = v"
  shows "findIndex (\<lambda>s. f s = v) xs = Some i"
proof (cases "findIndex (\<lambda>s. f s = v) xs")
  case None
  then have "\<forall>x \<in> set xs. f x \<noteq> v" by (simp add: findIndex_None)
  with assms show ?thesis by (metis nth_mem)
next
  case (Some k)
  from findIndex_Some[OF Some] have k: "k < length xs" "f (xs ! k) = v" by auto
  with assms have "map f xs ! k = map f xs ! i" by simp
  moreover have "k < length (map f xs)" "i < length (map f xs)" using k assms by simp_all
  ultimately have "k = i" using assms(1) nth_eq_iff_index_eq by blast
  with Some show ?thesis by simp
qed

lemma update_scores_replace:
  assumes "distinct (map hole_number ss)" "i < length ss" "hole_number (ss ! i) = n + 1"
  shows "update_scores sd n ss = ss[i := sd\<lparr>score_id := score_id (ss ! i)\<rparr>]"
  using findIndex_distinct[OF assms] by (simp add: update_scores_def)

lemma map_score_id_replace:
  "i < length ss \<Longrightarrow> map score_id (ss[i := sd\<lparr>score_id := score_id (ss ! i)\<rparr>]) = map score_id ss"
  by (simp add: map_update list_update_same_conv)


lemmas parse_simps = parseInt_def trim_def is_space_def is_digit_def digits_value_def
lemmas validate_simps = validateScoreEntry_def throws_errors_def approaches_errors_def
  putts_errors_def consistency_errors_def consistency_error_def Let_def
lemmas ex_simps = ex_state_def ex_round_def ex_hole_def ex_inputs_def ex_env_id_def ex_env_def ex_score_def
lemmas handler_simps = handleSaveHole_def navigateHole_def saveCurrentHoleScore_def
  renderScoringScreen_def saveCurrentRoundState_def clearValidationErrors_def
  showValidationErrors_def finishRound_def scoreData_def update_scores_def update_hole_info_def
  at_index_def json_round_def json_score_def json_hole_def

lemma step1: "state_of (handleSaveHole (ex_env_id ''id-1'') (ex_inputs ''3'' [] []) (ex_state [] 0))
   = ex_state [ex_score ''id-1'' 1 3] 1"
  by (simp add: parse_simps validate_simps ex_simps handler_simps)

lemma step2: "state_of (navigateHole (ex_env_id ''id-2'') (ex_inputs ''4'' [] []) (- 1)
      (ex_state [ex_score ''id-1'' 1 3] 1))
   = ex_state [ex_score ''id-1'' 1 3, ex_score ''id-2'' 2 4] 0"
  by (simp add: parse_simps validate_simps ex_simps handler_simps)

lemma ex_reachable: "reachable (ex_state [ex_score ''id-1'' 1 3, ex_score ''id-2'' 2 4] 0)"
proof -
  have "reachable (ex_state [] 0)"
    by (rule reachable.start[where r = "ex_round [] 0"]) (simp_all add: ex_simps)
  from reachable.save[OF this, of "ex_env_id ''id-1''" "ex_inputs ''3'' [] []"]
  have "reachable (ex_state [ex_score ''id-1'' 1 3] 1)" by (simp only: step1)
  from reachable.navigate[OF this, of "ex_env_id ''id-2''" "ex_inputs ''4'' [] []" "- 1"]
  show ?thesis by (simp only: step2)
qed


text \<open>
  C3. When the throws parse to a number in 1..20 and approaches and putts are both present
  and parse to numbers in 0..19, the errors of \<open>validateScoreEntry\<close> are the single
  consistency error if approaches + putts > throws - 1, and none otherwise. And whenever
  an error of the field \<open>consistency\<close> is reported, it is the only error, both sub-values
  are present and the three field checks have reported nothing. For example throws 3,
  approaches 2, putts 1 is invalid and throws 4 with the same sub-values is valid.
\<close>

theorem C3_validateScoreEntry_consistency:
  "(parseInt (score_throws d) = Num p \<and> 1 \<le> p \<and> p \<le> 20
     \<and> trim (score_approaches d) \<noteq> [] \<and> parseInt (trim (score_approaches d)) = Num a
     \<and> 0 \<le> a \<and> a \<le> 19
     \<and> trim (score_putts d) \<noteq> [] \<and> parseInt (trim (score_putts d)) = Num b
     \<and> 0 \<le> b \<and> b \<le> 19
    \<longrightarrow> errors (validateScoreEntry d) = (if a + b > p - 1 then [consistency_error] else [])
        \<and> isValid (validateScoreEntry d) = (a + b \<le> p - 1))
   \<and> (\<forall>e \<in> set (errors (validateScoreEntry d)). field e = ''consistency'' \<longrightarrow>
        errors (validateScoreEntry d) = [e] \<and> e = consistency_error
        \<and> trim (score_approaches d) \<noteq> [] \<and> trim (score_putts d) \<noteq> []
        \<and> throws_errors (parseInt (score_throws d)) = []
        \<and> approaches_errors (trim (score_approaches d)) = []
        \<and> putts_errors (trim (score_putts d)) = [])"
  using validate_clean_fields[of d p a b] validate_consistency_only[of _ d]
  by blast

theorem C3_validateScoreEntry_consistency_witness:
  "errors (validateScoreEntry (ex_inputs ''3'' ''2'' ''1'')) = [consistency_error]
   \<and> \<not> isValid (validateScoreEntry (ex_inputs ''3'' ''2'' ''1''))
   \<and> errors (validateScoreEntry (ex_inputs ''4'' ''2'' ''1'')) = []
   \<and> isValid (validateScoreEntry (ex_inputs ''4'' ''2'' ''1''))"
proof -
  have p: "parseInt ''1'' = Num 1" "parseInt ''2'' = Num 2" "parseInt ''3'' = Num 3"
    "parseInt ''4'' = Num 4" "trim ''1'' = ''1''" "trim ''2'' = ''2''"
    by (simp_all add: parse_simps)
  from C3_validateScoreEntry_consistency[of "ex_inputs ''3'' ''2'' ''1''" 3 2 1]
  have a: "errors (validateScoreEntry (ex_inputs ''3'' ''2'' ''1'')) = [consistency_error]"
    "\<not> isValid (validateScoreEntry (ex_inputs ''3'' ''2'' ''1''))"
    by (simp_all add: ex_inputs_def p)
  from C3_validateScoreEntry_consistency[of "ex_inputs ''4'' ''2'' ''1''" 4 2 1]
  have b: "errors (validateScoreEntry (ex_inputs ''4'' ''2'' ''1'')) = []"
    "isValid (validateScoreEntry (ex_inputs ''4'' ''2'' ''1''))"
    by (simp_all add: ex_inputs_def p)
  from a b show ?thesis by simp
qed

text \<open>
  C2, as the code has it. When the inputs fail the validation, \<open>handleSaveHole\<close> returns
  without writing: the current round (and so its scores list), the active hole index and
  the saved snapshot are those of the state before. It hands nothing back to its caller
  (\<open>handleSaveHole_result\<close> is \<^verbatim>\<open>undefined\<close>): the list of validation errors, which is
  not empty, goes to \<open>showValidationErrors\<close>, which shows the messages joined by a full
  stop and a space in an error toast and marks the inputs of the fields in error.
\<close>

theorem C2_handleSaveHole_invalid:
  assumes "\<not> isValid (validateScoreEntry d)"
  shows "\<exists>st'. handleSaveHole e d st = Returned st'
     \<and> currentRound st' = currentRound st
     \<and> currentHoleIndex st' = currentHoleIndex st
     \<and> savedRound st' = savedRound st
     \<and> st' = showValidationErrors (errors (validateScoreEntry d)) st
     \<and> errors (validateScoreEntry d) \<noteq> []
     \<and> toast st' = Some (join ''. '' (map message (errors (validateScoreEntry d))), ''error'', 4000)
     \<and> throws_input_error st'
          = (\<exists>x \<in> set (errors (validateScoreEntry d)). field x = ''throws'')
     \<and> approaches_input_error st'
          = (\<exists>x \<in> set (errors (validateScoreEntry d)).
               field x = ''approaches'' \<or> field x = ''consistency'')
     \<and> putts_input_error st'
          = (\<exists>x \<in> set (errors (validateScoreEntry d)).
               field x = ''putts'' \<or> field x = ''consistency'')
     \<and> handleSaveHole_result e d st = None"
proof -
  have ne: "errors (validateScoreEntry d) \<noteq> []"
    using assms by (simp add: validateScoreEntry_def Let_def)
  have "handleSaveHole e d st = Returned (showValidationErrors (errors (validateScoreEntry d)) st)"
    using assms by (simp add: handleSaveHole_def Let_def)
  then show ?thesis using ne
    by (simp add: showValidationErrors_keeps showValidationErrors_flags handleSaveHole_result_def)
qed

theorem C2_handleSaveHole_invalid_witness:
  "\<not> isValid (validateScoreEntry (ex_inputs ''0'' ''2'' ''1''))
   \<and> (\<exists>st'. handleSaveHole ex_env (ex_inputs ''0'' ''2'' ''1'') (ex_state [] 0) = Returned st'
        \<and> currentRound st' = Some (ex_round [] 0)
        \<and> currentHoleIndex st' = 0
        \<and> savedRound st' = Some (json_round (ex_round [] 0))
        \<and> toast st' = Some (''Throws must be at least 1'', ''error'', 4000)
        \<and> throws_input_error st' \<and> \<not> approaches_input_error st' \<and> \<not> putts_input_error st')
   \<and> handleSaveHole_result ex_env (ex_inputs ''0'' ''2'' ''1'') (ex_state [] 0) = None"
proof -
  have inv: "\<not> isValid (validateScoreEntry (ex_inputs ''0'' ''2'' ''1''))"
    by (simp add: parse_simps validate_simps ex_simps)
  have errs: "errors (validateScoreEntry (ex_inputs ''0'' ''2'' ''1''))
      = [\<lparr>field = ''throws'', message = ''Throws must be at least 1''\<rparr>]"
    by (simp add: parse_simps validate_simps ex_simps)
  from C2_handleSaveHole_invalid[OF inv, of ex_env "ex_state [] 0"] inv errs
  show ?thesis by (auto simp: ex_state_def)
qed

text \<open>
  C2 as stated fails in its last part: on inputs that fail the validation with one error,
  the caller of \<open>handleSaveHole\<close> receives \<^verbatim>\<open>undefined\<close>, not the list of errors.
\<close>

theorem C2_handleSaveHole_invalid_counterexample:
  "\<not> isValid (validateScoreEntry (ex_inputs ''0'' ''2'' ''1''))
   \<and> errors (validateScoreEntry (ex_inputs ''0'' ''2'' ''1''))
       = [\<lparr>field = ''throws'', message = ''Throws must be at least 1''\<rparr>]
   \<and> handleSaveHole_result ex_env (ex_inputs ''0'' ''2'' ''1'') (ex_state [] 0) = None
   \<and> handleSaveHole_result ex_env (ex_inputs ''0'' ''2'' ''1'') (ex_state [] 0)
       \<noteq> Some (validateScoreEntry (ex_inputs ''0'' ''2'' ''1''))"
  by (simp add: parse_simps validate_simps ex_simps handleSaveHole_result_def)

text \<open>
  C9. In every state of a round, the scores list and its snapshot hold at most one entry
  per hole number; and when the list has an entry for the active hole, saving the hole
  again writes the new entry at the position of the old one under the old identifier, so
  that the list keeps its length and its identifiers.
\<close>

theorem C9_one_entry_per_hole:
  "reachable st \<Longrightarrow>
     one_entry_per_hole st
     \<and> (\<forall>r h i. currentRound st = Some r
           \<and> at_index (holes r) (currentHoleIndex st) = Some h
           \<and> i < length (scores r) \<and> hole_number (scores r ! i) = currentHoleIndex st + 1
         \<longrightarrow> (\<exists>r'. saveCurrentHoleScore e d st = Returned (st\<lparr>currentRound := Some r'\<rparr>)
               \<and> scores r' = (scores r)[i := (scoreData e d r h (currentHoleIndex st))
                                   \<lparr>score_id := score_id (scores r ! i)\<rparr>]
               \<and> length (scores r') = length (scores r)
               \<and> map score_id (scores r') = map score_id (scores r)))"
proof (intro conjI allI impI)
  assume "reachable st"
  then show inv: "one_entry_per_hole st" by (rule reachable_inv)
  fix r h i
  assume h: "currentRound st = Some r
           \<and> at_index (holes r) (currentHoleIndex st) = Some h
           \<and> i < length (scores r) \<and> hole_number (scores r ! i) = currentHoleIndex st + 1"
  with inv have d: "distinct (map hole_number (scores r))" by (simp add: one_entry_per_hole_def)
  from h have i: "i < length (scores r)" and hn: "hole_number (scores r ! i) = currentHoleIndex st + 1"
    by simp_all
  note upd = update_scores_replace[OF d i hn]
  from h have "saveCurrentHoleScore e d st = Returned (st\<lparr>currentRound := Some (r\<lparr>
          holes := (holes r)[nat (currentHoleIndex st) :=
                      (if isNewCourse r then update_hole_info d h else h)],
          scores := update_scores (scoreData e d r h (currentHoleIndex st))
                      (currentHoleIndex st) (scores r)\<rparr>)\<rparr>)"
    by (simp add: saveCurrentHoleScore_ok)
  then show "\<exists>r'. saveCurrentHoleScore e d st = Returned (st\<lparr>currentRound := Some r'\<rparr>)
               \<and> scores r' = (scores r)[i := (scoreData e d r h (currentHoleIndex st))
                                   \<lparr>score_id := score_id (scores r ! i)\<rparr>]
               \<and> length (scores r') = length (scores r)
               \<and> map score_id (scores r') = map score_id (scores r)"
    using upd i by (intro exI conjI) (assumption, simp_all add: map_score_id_replace)
qed


theorem C9_one_entry_per_hole_witness:
  "reachable (ex_state [ex_score ''id-1'' 1 3, ex_score ''id-2'' 2 4] 0)
   \<and> one_entry_per_hole (ex_state [ex_score ''id-1'' 1 3, ex_score ''id-2'' 2 4] 0)
   \<and> (\<exists>r'. saveCurrentHoleScore (ex_env_id ''id-3'') (ex_inputs ''5'' [] [])
               (ex_state [ex_score ''id-1'' 1 3, ex_score ''id-2'' 2 4] 0)
             = Returned ((ex_state [ex_score ''id-1'' 1 3, ex_score ''id-2'' 2 4] 0)
                           \<lparr>currentRound := Some r'\<rparr>)
          \<and> scores r' = [ex_score ''id-1'' 1 5, ex_score ''id-2'' 2 4]
          \<and> map score_id (scores r') = [''id-1'', ''id-2''])"
proof -
  let ?S = "ex_state [ex_score ''id-1'' 1 3, ex_score ''id-2'' 2 4] 0"
  let ?r = "ex_round [ex_score ''id-1'' 1 3, ex_score ''id-2'' 2 4] 0"
  note c9 = C9_one_entry_per_hole[OF ex_reachable,
      of "ex_env_id ''id-3''" "ex_inputs ''5'' [] []"]
  from c9 have inv: "one_entry_per_hole ?S" by blast
  have hyp: "currentRound ?S = Some ?r
           \<and> at_index (holes ?r) (currentHoleIndex ?S) = Some (ex_hole 1)
           \<and> 0 < length (scores ?r) \<and> hole_number (scores ?r ! 0) = currentHoleIndex ?S + 1"
    by (simp add: ex_simps at_index_def)
  from c9 hyp obtain r' where
    r': "saveCurrentHoleScore (ex_env_id ''id-3'') (ex_inputs ''5'' [] []) ?S
           = Returned (?S\<lparr>currentRound := Some r'\<rparr>)"
      "scores r' = (scores ?r)[0 := (scoreData (ex_env_id ''id-3'') (ex_inputs ''5'' [] []) ?r
                                     (ex_hole 1) (currentHoleIndex ?S))
                                   \<lparr>score_id := score_id (scores ?r ! 0)\<rparr>]"
      "map score_id (scores r') = map score_id (scores ?r)"
    by blast
  from r'(2) have s1: "scores r' = [ex_score ''id-1'' 1 5, ex_score ''id-2'' 2 4]"
    by (simp add: ex_simps scoreData_def parse_simps)
  from r'(3) have s2: "map score_id (scores r') = [''id-1'', ''id-2'']"
    by (simp add: ex_simps)
  show ?thesis
  proof (intro conjI exI)
    show "reachable ?S" by (rule ex_reachable)
    show "one_entry_per_hole ?S" by (rule inv)
    show "saveCurrentHoleScore (ex_env_id ''id-3'') (ex_inputs ''5'' [] []) ?S
           = Returned (?S\<lparr>currentRound := Some r'\<rparr>)" by (rule r'(1))
    show "scores r' = [ex_score ''id-1'' 1 5, ex_score ''id-2'' 2 4]" by (rule s1)
    show "map score_id (scores r') = [''id-1'', ''id-2'']" by (rule s2)
  qed
qed

text \<open>
  C10. Navigating backward to a hole within the round stores the entered values as the
  entry of the active hole without validating them, whatever they are: the entry is in the
  scores list of the current round, and the snapshot saved afterwards is that round. So
  an empty throws field is stored as 0 throws, and sub-values whose sum exceeds
  throws - 1 are stored as entered.
\<close>

theorem C10_navigate_back_unvalidated:
  assumes "currentRound st = Some r"
    and "at_index (holes r) (currentHoleIndex st) = Some h"
    and "direction < 0"
    and "0 \<le> currentHoleIndex st + direction"
    and "currentHoleIndex st + direction < holeCount r"
  shows "\<exists>r' sd. currentRound (state_of (navigateHole e d direction st)) = Some r'
     \<and> savedRound (state_of (navigateHole e d direction st)) = Some (json_round r')
     \<and> currentHoleIndex (state_of (navigateHole e d direction st)) = currentHoleIndex st + direction
     \<and> sd \<in> set (scores r')
     \<and> hole_number sd = currentHoleIndex st + 1
     \<and> throws sd = Num (num_or (parseInt (score_throws d)) 0)
     \<and> approaches sd = (if score_approaches d \<noteq> [] then Some (parseInt (score_approaches d))
                         else None)
     \<and> putts sd = (if score_putts d \<noteq> [] then Some (parseInt (score_putts d)) else None)"
proof -
  let ?i = "currentHoleIndex st"
  let ?sd = "scoreData e d r h ?i"
  let ?ss = "update_scores ?sd ?i (scores r)"
  let ?r1 = "r\<lparr>holes := (holes r)[nat ?i := (if isNewCourse r then update_hole_info d h else h)],
               scores := ?ss\<rparr>"
  let ?r2 = "?r1\<lparr>r_currentHoleIndex := ?i + direction\<rparr>"
  have nav: "state_of (navigateHole e d direction st)
      = (st\<lparr>currentRound := Some ?r1\<rparr>)\<lparr>currentHoleIndex := ?i + direction,
            currentRound := Some ?r2, savedRound := Some (json_round ?r2)\<rparr>"
    using assms
    by (simp add: navigateHole_def Let_def saveCurrentHoleScore_ok saveCurrentRoundState_def
        renderScoringScreen_state)
  obtain sd where sd: "sd \<in> set ?ss" "hole_number sd = ?i + 1" "throws sd = throws ?sd"
    "approaches sd = approaches ?sd" "putts sd = putts ?sd"
  proof (cases "findIndex (\<lambda>s. hole_number s = ?i + 1) (scores r)")
    case None
    then have "?sd \<in> set ?ss" by (simp add: update_scores_def)
    then show ?thesis using that[of ?sd] by (simp add: hole_number_scoreData)
  next
    case (Some k)
    from findIndex_Some[OF Some] have k: "k < length (scores r)" by simp
    let ?x = "?sd\<lparr>score_id := score_id (scores r ! k)\<rparr>"
    from Some k have "?x \<in> set ?ss"
      by (simp add: update_scores_def set_update_memI)
    then show ?thesis using that[of ?x] by (simp add: hole_number_scoreData)
  qed
  show ?thesis
    apply (rule exI[of _ ?r2], rule exI[of _ sd])
    using sd by (simp add: nav scoreData_def)
qed

theorem C10_navigate_back_unvalidated_witness:
  "\<not> isValid (validateScoreEntry (ex_inputs [] ''2'' ''1''))
   \<and> (\<exists>r' sd. currentRound (state_of (navigateHole ex_env (ex_inputs [] ''2'' ''1'') (- 1)
                  (ex_state [] 1))) = Some r'
        \<and> savedRound (state_of (navigateHole ex_env (ex_inputs [] ''2'' ''1'') (- 1)
                  (ex_state [] 1))) = Some (json_round r')
        \<and> currentHoleIndex (state_of (navigateHole ex_env (ex_inputs [] ''2'' ''1'') (- 1)
                  (ex_state [] 1))) = 0
        \<and> sd \<in> set (scores r') \<and> hole_number sd = 2
        \<and> throws sd = Num 0 \<and> approaches sd = Some (Num 2) \<and> putts sd = Some (Num 1))"
proof -
  have inv: "\<not> isValid (validateScoreEntry (ex_inputs [] ''2'' ''1''))"
    by (simp add: parse_simps validate_simps ex_simps)
  have hyps: "currentRound (ex_state [] 1) = Some (ex_round [] 1)"
    "at_index (holes (ex_round [] 1)) (currentHoleIndex (ex_state [] 1)) = Some (ex_hole 2)"
    "(- 1 :: int) < 0" "0 \<le> currentHoleIndex (ex_state [] 1) + (- 1)"
    "currentHoleIndex (ex_state [] 1) + (- 1) < holeCount (ex_round [] 1)"
    by (simp_all add: ex_simps at_index_def)
  have p: "parseInt [] = NaN" "parseInt ''2'' = Num 2" "parseInt ''1'' = Num 1"
    by (simp_all add: parse_simps)
  from C10_navigate_back_unvalidated[OF hyps, of ex_env "ex_inputs [] ''2'' ''1''"]
  have "\<exists>r' sd. currentRound (state_of (navigateHole ex_env (ex_inputs [] ''2'' ''1'') (- 1)
                  (ex_state [] 1))) = Some r'
        \<and> savedRound (state_of (navigateHole ex_env (ex_inputs [] ''2'' ''1'') (- 1)
                  (ex_state [] 1))) = Some (json_round r')
        \<and> currentHoleIndex (state_of (navigateHole ex_env (ex_inputs [] ''2'' ''1'') (- 1)
                  (ex_state [] 1))) = 0
        \<and> sd \<in> set (scores r') \<and> hole_number sd = 2
        \<and> throws sd = Num 0 \<and> approaches sd = Some (Num 2) \<and> putts sd = Some (Num 1)"
    by (simp add: ex_inputs_def p ex_state_def)
  with inv show ?thesis by (rule conjI)
qed

lemma navigateHole_out_of_range:
  assumes "currentRound st = Some r"
    and "at_index (holes r) (currentHoleIndex st) = Some h"
    and "\<not> (0 \<le> currentHoleIndex st + direction \<and> currentHoleIndex st + direction < holeCount r)"
  shows "\<not> threw (navigateHole e d direction st)
     \<and> currentHoleIndex (state_of (navigateHole e d direction st)) = currentHoleIndex st
     \<and> savedRound (state_of (navigateHole e d direction st)) = savedRound st"
proof (cases "direction > 0 \<and> \<not> isValid (validateScoreEntry d)")
  case True
  then show ?thesis by (simp add: navigateHole_def Let_def showValidationErrors_keeps)
next
  case False
  define st0 where "st0 = (if direction > 0 then clearValidationErrors st else st)"
  have st0: "currentRound st0 = Some r" "currentHoleIndex st0 = currentHoleIndex st"
    "savedRound st0 = savedRound st"
    using assms by (simp_all add: st0_def clearValidationErrors_def)
  with assms have h0: "at_index (holes r) (currentHoleIndex st0) = Some h" by simp
  note ok = saveCurrentHoleScore_ok[OF st0(1) h0, of e d]
  have "navigateHole e d direction st =
     (case saveCurrentHoleScore e d st0 of
           Threw err st1 \<Rightarrow> Threw err st1
         | Returned st1 \<Rightarrow>
             (case currentRound st1 of
                None \<Rightarrow> Threw TypeError st1
              | Some rnd \<Rightarrow>
                  (let newIndex = currentHoleIndex st1 + direction in
                   if newIndex \<ge> 0 \<and> newIndex < holeCount rnd
                   then renderScoringScreen
                          (saveCurrentRoundState
                             (st1\<lparr>currentHoleIndex := newIndex,
                                  currentRound := Some (rnd\<lparr>r_currentHoleIndex := newIndex\<rparr>)\<rparr>))
                   else Returned st1)))"
    using False unfolding navigateHole_def Let_def st0_def by (simp only: if_False)
  with ok assms(3) st0 show ?thesis by (auto simp: Let_def)
qed

lemma handleSaveHole_completed:
  assumes "currentRound st = Some r" and "completed r"
    and "at_index (holes r) (currentHoleIndex st) = Some h"
    and "currentHoleIndex st = holeCount r - 1"
  shows "\<not> threw (handleSaveHole e d st)
     \<and> (\<exists>r'. currentRound (state_of (handleSaveHole e d st)) = Some r' \<and> completed r')"
proof (cases "isValid (validateScoreEntry d)")
  case False
  then show ?thesis using assms
    by (simp add: handleSaveHole_def Let_def showValidationErrors_keeps)
next
  case True
  have c: "currentRound (clearValidationErrors st) = Some r"
    "currentHoleIndex (clearValidationErrors st) = currentHoleIndex st"
    using assms by (simp_all add: clearValidationErrors_def)
  with assms have h0: "at_index (holes r) (currentHoleIndex (clearValidationErrors st)) = Some h"
    by simp
  note ok = saveCurrentHoleScore_ok[OF c(1) h0, of e d]
  show ?thesis using True assms c
    by (simp add: handleSaveHole_def ok Let_def finishRound_def saveCurrentRoundState_def)
qed

text \<open>
  C8, as the code has it. A navigation whose target index lies outside the round is
  absorbed: \<open>navigateHole\<close> returns without an error, and the active hole index and the
  saved snapshot stay as they were. Submitting the last hole of a round that is already
  completed raises no error either: \<open>handleSaveHole\<close> returns and the round stays
  completed.
\<close>

theorem C8_invalid_transition_absorbed:
  "(currentRound st = Some r \<and> at_index (holes r) (currentHoleIndex st) = Some h
      \<and> \<not> (0 \<le> currentHoleIndex st + direction \<and> currentHoleIndex st + direction < holeCount r)
    \<longrightarrow> \<not> threw (navigateHole e d direction st)
        \<and> currentHoleIndex (state_of (navigateHole e d direction st)) = currentHoleIndex st
        \<and> savedRound (state_of (navigateHole e d direction st)) = savedRound st)
   \<and> (currentRound st = Some r \<and> completed r
      \<and> at_index (holes r) (currentHoleIndex st) = Some h
      \<and> currentHoleIndex st = holeCount r - 1
    \<longrightarrow> \<not> threw (handleSaveHole e d st)
        \<and> (\<exists>r'. currentRound (state_of (handleSaveHole e d st)) = Some r' \<and> completed r'))"
  using navigateHole_out_of_range[of st r h direction e d] handleSaveHole_completed[of st r h e d]
  by blast

lemma ex_completed_eq:
  "currentRound ex_completed
     = Some ((ex_round [ex_score ''id-1'' 1 3] 2)
              \<lparr>completed := True, total_score := Some 3, total_par := Some 3\<rparr>)"
  "currentHoleIndex ex_completed = 2"
  by (simp_all add: ex_completed_def finishRound_def ex_simps Let_def saveCurrentRoundState_def
      totalScore_def totalPar_def)

theorem C8_invalid_transition_absorbed_witness:
  "\<not> threw (navigateHole ex_env (ex_inputs ''3'' [] []) (- 1) (ex_state [] 0))
   \<and> currentHoleIndex (state_of (navigateHole ex_env (ex_inputs ''3'' [] []) (- 1) (ex_state [] 0)))
       = 0
   \<and> savedRound (state_of (navigateHole ex_env (ex_inputs ''3'' [] []) (- 1) (ex_state [] 0)))
       = Some (json_round (ex_round [] 0))
   \<and> \<not> threw (handleSaveHole ex_env (ex_inputs ''3'' [] []) ex_completed)
   \<and> (\<exists>r'. currentRound (state_of (handleSaveHole ex_env (ex_inputs ''3'' [] []) ex_completed))
               = Some r' \<and> completed r')"
proof -
  have h1: "currentRound (ex_state [] 0) = Some (ex_round [] 0)
      \<and> at_index (holes (ex_round [] 0)) (currentHoleIndex (ex_state [] 0)) = Some (ex_hole 1)
      \<and> \<not> (0 \<le> currentHoleIndex (ex_state [] 0) + (- 1)
           \<and> currentHoleIndex (ex_state [] 0) + (- 1) < holeCount (ex_round [] 0))"
    by (simp add: ex_simps at_index_def)
  let ?r = "(ex_round [ex_score ''id-1'' 1 3] 2)
              \<lparr>completed := True, total_score := Some 3, total_par := Some 3\<rparr>"
  have h2: "currentRound ex_completed = Some ?r \<and> completed ?r
      \<and> at_index (holes ?r) (currentHoleIndex ex_completed) = Some (ex_hole 3)
      \<and> currentHoleIndex ex_completed = holeCount ?r - 1"
    by (simp add: ex_completed_eq) (simp add: ex_simps at_index_def)
  from C8_invalid_transition_absorbed[of "ex_state [] 0" "ex_round [] 0" "ex_hole 1" "- 1"
      ex_env "ex_inputs ''3'' [] []"] h1
  have a: "\<not> threw (navigateHole ex_env (ex_inputs ''3'' [] []) (- 1) (ex_state [] 0))
     \<and> currentHoleIndex (state_of (navigateHole ex_env (ex_inputs ''3'' [] []) (- 1) (ex_state [] 0)))
         = currentHoleIndex (ex_state [] 0)
     \<and> savedRound (state_of (navigateHole ex_env (ex_inputs ''3'' [] []) (- 1) (ex_state [] 0)))
         = savedRound (ex_state [] 0)"
    by blast
  from C8_invalid_transition_absorbed[of ex_completed ?r "ex_hole 3" 0
      ex_env "ex_inputs ''3'' [] []"] h2
  have b: "\<not> threw (handleSaveHole ex_env (ex_inputs ''3'' [] []) ex_completed)
     \<and> (\<exists>r'. currentRound (state_of (handleSaveHole ex_env (ex_inputs ''3'' [] []) ex_completed))
               = Some r' \<and> completed r')"
    by blast
  from a b show ?thesis by (simp add: ex_state_def)
qed

text \<open>
  C8 as stated fails: stepping back from the first hole and stepping forward from the last
  one raise no error and leave the index where it was, and so does submitting on a
  completed round.
\<close>

theorem C8_invalid_transition_counterexample:
  "\<not> threw (navigateHole ex_env (ex_inputs ''3'' [] []) (- 1) (ex_state [] 0))
   \<and> currentHoleIndex (state_of (navigateHole ex_env (ex_inputs ''3'' [] []) (- 1) (ex_state [] 0)))
       = 0
   \<and> \<not> threw (navigateHole ex_env (ex_inputs ''3'' [] []) 1 (ex_state [] 2))
   \<and> currentHoleIndex (state_of (navigateHole ex_env (ex_inputs ''3'' [] []) 1 (ex_state [] 2)))
       = 2
   \<and> \<not> threw (handleSaveHole ex_env (ex_inputs ''3'' [] []) ex_completed)"
  by (simp add: ex_completed_def parse_simps validate_simps ex_simps handler_simps
      totalScore_def totalPar_def)

text \<open>
  C1. One pass of \<open>processPendingSync\<close> runs each pending operation once, in the order
  of the queue, each from the state of the gateway its predecessors left
  (\<open>gateway_after\<close>); the queue afterwards holds exactly the operations that did not
  complete, in their order; and the pass returns true exactly when all completed. An
  operation completes exactly when every gateway call it made succeeded. (With six
  operations and a gateway failing the second and the fifth call, those two remain.)
\<close>

theorem C1_processPendingSync_drain:
  "getPendingSync (fst (snd (processPendingSync gw ls g)))
     = map fst (filter (\<lambda>a. \<not> snd a) (attempts gw g (getPendingSync ls)))
   \<and> fst (processPendingSync gw ls g) = list_all snd (attempts gw g (getPendingSync ls))
   \<and> map fst (attempts gw g (getPendingSync ls)) = getPendingSync ls
   \<and> snd (snd (processPendingSync gw ls g)) = gateway_after gw g (getPendingSync ls)
   \<and> fst (run_operation gw h opn) = list_all snd (calls gw h opn)"
proof (cases "getPendingSync ls")
  case Nil
  then show ?thesis by (simp add: processPendingSync_def gateway_after_def calls_all)
next
  case (Cons opn rest)
  then have ne: "length (getPendingSync ls) \<noteq> 0" by simp
  have a: "processPendingSync gw ls g =
      (map fst (filter (\<lambda>a. \<not> snd a) (attempts gw g (getPendingSync ls))) = [],
       ls\<lparr>pendingSync := Some (map fst (filter (\<lambda>a. \<not> snd a) (attempts gw g (getPendingSync ls))))\<rparr>,
       gateway_after gw g (getPendingSync ls))"
    using ne by (simp add: processPendingSync_def Let_def process_loop_attempts)
  show ?thesis
    unfolding a by (simp add: getPendingSync_def attempts_fst no_failed_iff calls_all)
qed


theorem C1_processPendingSync_drain_witness:
  "getPendingSync (fst (snd (processPendingSync ex_gateway_fails_2_5 ex_six 0)))
     = [ex_op ''2'', ex_op ''5'']
   \<and> fst (processPendingSync ex_gateway_fails_2_5 ex_six 0) = False
   \<and> snd (snd (processPendingSync ex_gateway_fails_2_5 ex_six 0)) = 6"
proof -
  have run: "\<And>n i. run_operation ex_gateway_fails_2_5 n (operation (ex_op i))
      = (\<not> (n = 1 \<or> n = 4), Suc n)"
    by (simp add: ex_op_def saveCourse_def ex_gateway_fails_2_5_def)
  have att: "attempts ex_gateway_fails_2_5 0 (getPendingSync ex_six)
      = [(ex_op ''1'', True), (ex_op ''2'', False), (ex_op ''3'', True), (ex_op ''4'', True),
         (ex_op ''5'', False), (ex_op ''6'', True)]"
    by (simp add: ex_six_def getPendingSync_def run)
  have ga: "gateway_after ex_gateway_fails_2_5 0 (getPendingSync ex_six) = 6"
    by (simp add: ex_six_def getPendingSync_def gateway_after_def run)
  from C1_processPendingSync_drain[of ex_gateway_fails_2_5 ex_six 0] show ?thesis
    by (simp add: att ga)
qed

text \<open>
  C4, as the code has it. After enqueueing N operations on an empty queue, a pass against
  a gateway whose calls all succeed returns true and leaves the queue empty; the gateway
  is left as by running the N operations once each in the order they were enqueued, and
  the requests it received are those of the operations in that order: one \<^verbatim>\<open>createRow\<close>
  for each entity of a save operation, and a \<^verbatim>\<open>getRows\<close> followed by at most one
  \<^verbatim>\<open>updateRow\<close> for an update. The number of gateway calls is the number of these
  requests, which is not N in general.
\<close>

theorem C4_enqueue_then_drain:
  assumes "always_succeeds gw" and "getPendingSync ls = []"
  shows "fst (processPendingSync (logged gw) (enqueue_all ops ls) (g, []))
     \<and> getPendingSync (fst (snd (processPendingSync (logged gw) (enqueue_all ops ls) (g, [])))) = []
     \<and> fst (snd (snd (processPendingSync (logged gw) (enqueue_all ops ls) (g, []))))
         = gateway_after gw g (getPendingSync (enqueue_all ops ls))
     \<and> map fst (snd (snd (snd (processPendingSync (logged gw) (enqueue_all ops ls) (g, [])))))
         = replay_requests gw g (getPendingSync (enqueue_all ops ls))
     \<and> list_all snd (snd (snd (snd (processPendingSync (logged gw) (enqueue_all ops ls) (g, [])))))
     \<and> map operation (getPendingSync (enqueue_all ops ls)) = map snd ops"
proof -
  let ?p = "getPendingSync (enqueue_all ops ls)"
  have p: "?p = map (\<lambda>(now, opn). \<lparr>operation = opn, timestamp = now\<rparr>) ops"
    using assms(2) by (simp add: getPendingSync_enqueue_all)
  have ops: "map operation ?p = map snd ops" unfolding p by (simp add: case_prod_beta comp_def)
  have all: "\<And>s opn. fst (run_operation (logged gw) s opn)"
  proof -
    fix s :: "'a \<times> (request \<times> bool) list" and opn
    obtain g0 lg0 where s: "s = (g0, lg0)" by (cases s)
    show "fst (run_operation (logged gw) s opn)"
      unfolding s by (simp add: calls_run run_operation_succeeds[OF assms(1)])
  qed
  from gateway_after_logged[OF assms(1), of g "[]" ?p] obtain l where
    l: "gateway_after (logged gw) (g, []) ?p = (gateway_after gw g ?p, l)"
       "map fst l = replay_requests gw g ?p" "list_all snd l" by auto
  have res: "processPendingSync (logged gw) (enqueue_all ops ls) (g, [])
      = (True, (if ?p = [] then enqueue_all ops ls else (enqueue_all ops ls)\<lparr>pendingSync := Some []\<rparr>),
          (gateway_after gw g ?p, l))"
  proof (cases "?p = []")
    case True
    with l show ?thesis by (simp add: processPendingSync_def gateway_after_def)
  next
    case False
    then show ?thesis
      by (simp add: processPendingSync_def Let_def process_loop_attempts
          attempts_all_succeed[of "logged gw", OF all] l)
  qed
  show ?thesis unfolding res using l ops by (auto simp: getPendingSync_def)
qed


lemmas queue_simps = processPendingSync_def enqueue_all_def addPendingSync_def getPendingSync_def
  saveCourse_def logged_def Let_def

theorem C4_enqueue_then_drain_witness:
  "always_succeeds ex_gateway_ok
   \<and> getPendingSync \<lparr>pendingSync = None\<rparr> = []
   \<and> fst (processPendingSync (logged ex_gateway_ok) (enqueue_all ex_two \<lparr>pendingSync = None\<rparr>) (0, []))
   \<and> getPendingSync (fst (snd (processPendingSync (logged ex_gateway_ok)
         (enqueue_all ex_two \<lparr>pendingSync = None\<rparr>) (0, [])))) = []
   \<and> map fst (snd (snd (snd (processPendingSync (logged ex_gateway_ok)
         (enqueue_all ex_two \<lparr>pendingSync = None\<rparr>) (0, [])))))
       = [CreateRow sheets_courses (prepareRowData (ex_course ''c'') headers_courses),
          CreateRow sheets_scores (prepareRowData (ex_score_entity ''a'') headers_scores),
          CreateRow sheets_scores (prepareRowData (ex_score_entity ''b'') headers_scores)]"
proof -
  have a: "always_succeeds ex_gateway_ok"
    by (simp add: always_succeeds_def ex_gateway_ok_def)
  have b: "getPendingSync \<lparr>pendingSync = None\<rparr> = []" by (simp add: getPendingSync_def)
  have r: "replay_requests ex_gateway_ok 0
             (getPendingSync (enqueue_all ex_two \<lparr>pendingSync = None\<rparr>))
       = [CreateRow sheets_courses (prepareRowData (ex_course ''c'') headers_courses),
          CreateRow sheets_scores (prepareRowData (ex_score_entity ''a'') headers_scores),
          CreateRow sheets_scores (prepareRowData (ex_score_entity ''b'') headers_scores)]"
    by (simp add: ex_two_def enqueue_all_def addPendingSync_def getPendingSync_def Let_def)
  from C4_enqueue_then_drain[OF a b, of ex_two 0] a b show ?thesis
    by (simp add: r)
qed

text \<open>
  C4 as stated fails: one operation that saves two scores, drained against a gateway that
  always succeeds, makes two gateway calls.
\<close>

theorem C4_enqueue_then_drain_counterexample:
  "always_succeeds ex_gateway_ok
   \<and> length [(''t'', SaveScores [ex_score_entity ''a'', ex_score_entity ''b''])] = 1
   \<and> length (snd (snd (snd (processPendingSync (logged ex_gateway_ok)
         (enqueue_all [(''t'', SaveScores [ex_score_entity ''a'', ex_score_entity ''b''])]
            \<lparr>pendingSync = None\<rparr>) (0, []))))) = 2"
  by (simp add: always_succeeds_def ex_gateway_ok_def queue_simps)

text \<open>
  C5, at the input where the code departs from it. With the indexed backend and a name
  that is not one of its object stores, \<open>getAll\<close> does not return the empty sequence: the
  promise is rejected with the \<^verbatim>\<open>NotFoundError\<close> that \<^verbatim>\<open>transaction\<close> throws. The
  fallback returns the empty sequence for the same name.
\<close>

theorem C5_getAll_absent_store:
  "getAll f ''players'' ex_indexed = Inl NotFoundError
   \<and> getAll f ''players'' ex_fallback = Inr (Items [])"
  by (simp add: getAll_def ex_indexed_def ex_fallback_def init_db_def get_or_empty_def
      storage_get_def storageKeys_def)

text \<open>
  C6, as the code has it. For records that have the identifier field of their
  collection, \<open>put\<close> is an idempotent upsert keyed by that field. Putting a record twice
  leaves the store as putting it once does (if a request to the indexed backend fails, as
  the one put that succeeded, or as none). Putting a second record with the same
  identifier after the first leaves the store as putting the second alone does, with as
  many records as after the first: the record is replaced, not added again. And after a
  put that succeeded, \<open>getById\<close> with the identifier returns the record put, \<open>getAll\<close>
  returns a sequence that holds it, and \<open>getById\<close> with any other identifier returns what
  it returned before. A put whose request does not fail succeeds when the fallback holds
  an array (or nothing) for the collection, and when the indexed backend has the object
  store and the identifier is a valid key.
\<close>

theorem C6_put_idempotent_upsert:
  assumes "\<forall>kf. key_field st storeName = Some kf \<longrightarrow>
             map_of item kf = Some v \<and> map_of item2 kf = Some v"
  shows "snd (put f2 storeName item (snd (put f1 storeName item st)))
           = snd (put (f1 \<and> f2) storeName item st)
     \<and> snd (put False storeName item2 (snd (put False storeName item st)))
           = snd (put False storeName item2 st)
     \<and> record_count storeName (snd (put False storeName item2 (snd (put False storeName item st))))
           = record_count storeName (snd (put False storeName item st))
     \<and> (fst (put False storeName item st) = Inr True \<longrightarrow>
           getById False storeName v (snd (put False storeName item st)) = Inr (Some item)
           \<and> (\<exists>xs. getAll False storeName (snd (put False storeName item st)) = Inr (Items xs)
                  \<and> item \<in> set xs)
           \<and> (\<forall>v'. v' \<noteq> v \<longrightarrow>
                  getById False storeName v' (snd (put False storeName item st))
                    = getById False storeName v' st))
     \<and> ((db st = None \<and> (\<exists>items. get_or_empty st (storageKeys storeName) = Items items))
          \<or> (\<exists>d os. db st = Some d \<and> d storeName = Some os \<and> idb_key_of v \<noteq> None)
         \<longrightarrow> fst (put False storeName item st) = Inr True)"
proof (cases "db st")
  case None
  with assms have k: "map_of item (butlast storeName @ ''_id'') = Some v"
    "map_of item2 (butlast storeName @ ''_id'') = map_of item (butlast storeName @ ''_id'')"
    by (simp_all add: key_field_def)
  from put_fallback_twice[OF None, of item storeName item f2 f1 "f1 \<and> f2"]
      put_fallback_twice[OF None k(2), of False False False] count_fallback[OF None k(2)]
  have old: "snd (put f2 storeName item (snd (put f1 storeName item st)))
           = snd (put (f1 \<and> f2) storeName item st)
     \<and> snd (put False storeName item2 (snd (put False storeName item st)))
           = snd (put False storeName item2 st)
     \<and> record_count storeName (snd (put False storeName item2 (snd (put False storeName item st))))
           = record_count storeName (snd (put False storeName item st))"
    by simp
  have ok: "(db st = None \<and> (\<exists>items. get_or_empty st (storageKeys storeName) = Items items))
          \<or> (\<exists>d os. db st = Some d \<and> d storeName = Some os \<and> idb_key_of v \<noteq> None)
         \<longrightarrow> fst (put False storeName item st) = Inr True"
    using None by (auto simp: put_def Let_def)
  from old ok put_then_get_fallback[OF None k(1)] show ?thesis by blast
next
  case (Some d)
  show ?thesis
  proof (cases "d storeName")
    case None
    with Some show ?thesis by (simp add: put_def)
  next
    case (Some os)
    with \<open>db st = Some d\<close> assms
    have k: "map_of item (keyPath os) = Some v" "map_of item (keyPath os) \<noteq> None"
      "map_of item2 (keyPath os) = map_of item (keyPath os)"
      by (simp_all add: key_field_def)
    note d = \<open>db st = Some d\<close>
    have a: "snd (put f2 storeName item (snd (put f1 storeName item st)))
           = snd (put (f1 \<and> f2) storeName item st)"
    proof (cases f1)
      case True
      then show ?thesis by (simp add: put_failed_request[OF d])
    next
      case False
      show ?thesis
      proof (cases f2)
        case True
        from put_indexed_backend[OF d, of False storeName item] obtain d' where
          "db (snd (put False storeName item st)) = Some d'" by blast
        from put_failed_request[OF this] True False show ?thesis by simp
      next
        case f2: False
        from put_idb_twice[OF d Some k(2), of item] False f2 show ?thesis by simp
      qed
    qed
    from a put_idb_twice[OF d Some k(2,3)] count_idb[OF d Some k(2,3)]
    have old: "snd (put f2 storeName item (snd (put f1 storeName item st)))
           = snd (put (f1 \<and> f2) storeName item st)
     \<and> snd (put False storeName item2 (snd (put False storeName item st)))
           = snd (put False storeName item2 st)
     \<and> record_count storeName (snd (put False storeName item2 (snd (put False storeName item st))))
           = record_count storeName (snd (put False storeName item st))"
      by simp
    have ok: "(db st = None \<and> (\<exists>items. get_or_empty st (storageKeys storeName) = Items items))
          \<or> (\<exists>d os. db st = Some d \<and> d storeName = Some os \<and> idb_key_of v \<noteq> None)
         \<longrightarrow> fst (put False storeName item st) = Inr True"
      using d Some k(1) by (cases v) (auto simp: put_def idb_put_def)
    from old ok put_then_get_idb[OF d Some k(1)] show ?thesis by blast
  qed
qed

theorem C6_put_idempotent_upsert_witness:
  "getAll False ''courses''
       (snd (put False ''courses'' ex_course2 (snd (put False ''courses'' (ex_course ''c'') ex_fallback))))
     = Inr (Items [ex_course2])
   \<and> getAll False ''courses''
       (snd (put False ''courses'' ex_course2 (snd (put False ''courses'' (ex_course ''c'') ex_indexed))))
     = Inr (Items [ex_course2])
   \<and> snd (put False ''courses'' (ex_course ''c'') (snd (put False ''courses'' (ex_course ''c'') ex_fallback)))
     = snd (put False ''courses'' (ex_course ''c'') ex_fallback)
   \<and> fst (put False ''courses'' ex_course2 ex_fallback) = Inr True
   \<and> getById False ''courses'' (PStr ''c'') (snd (put False ''courses'' ex_course2 ex_fallback))
     = Inr (Some ex_course2)
   \<and> fst (put False ''courses'' ex_course2 ex_indexed) = Inr True
   \<and> getById False ''courses'' (PStr ''c'') (snd (put False ''courses'' ex_course2 ex_indexed))
     = Inr (Some ex_course2)
   \<and> getById False ''courses'' (PStr ''d'') (snd (put False ''courses'' ex_course2 ex_indexed))
     = getById False ''courses'' (PStr ''d'') ex_indexed"
proof -
  have k1: "\<forall>kf. key_field ex_fallback ''courses'' = Some kf \<longrightarrow>
             map_of (ex_course ''c'') kf = Some (PStr ''c'') \<and> map_of ex_course2 kf = Some (PStr ''c'')"
    by (simp add: key_field_def ex_fallback_def ex_course_def ex_course2_def)
  have k2: "\<forall>kf. key_field ex_indexed ''courses'' = Some kf \<longrightarrow>
             map_of (ex_course ''c'') kf = Some (PStr ''c'') \<and> map_of ex_course2 kf = Some (PStr ''c'')"
    by (simp add: key_field_def ex_indexed_def new_store_def ex_course_def ex_course2_def)
  have k3: "\<forall>kf. key_field ex_fallback ''courses'' = Some kf \<longrightarrow>
             map_of (ex_course ''c'') kf = Some (PStr ''c'') \<and> map_of (ex_course ''c'') kf = Some (PStr ''c'')"
    by (simp add: key_field_def ex_fallback_def ex_course_def)
  have k4: "\<forall>kf. key_field ex_fallback ''courses'' = Some kf \<longrightarrow>
             map_of ex_course2 kf = Some (PStr ''c'') \<and> map_of ex_course2 kf = Some (PStr ''c'')"
    by (simp add: key_field_def ex_fallback_def ex_course2_def)
  have k5: "\<forall>kf. key_field ex_indexed ''courses'' = Some kf \<longrightarrow>
             map_of ex_course2 kf = Some (PStr ''c'') \<and> map_of ex_course2 kf = Some (PStr ''c'')"
    by (simp add: key_field_def ex_indexed_def new_store_def ex_course2_def)
  have e1: "getAll False ''courses'' (snd (put False ''courses'' ex_course2 ex_fallback))
      = Inr (Items [ex_course2])"
    by (simp add: put_def getAll_def ex_fallback_def get_or_empty_def storage_get_def
        storage_set_def storageKeys_def Let_def ex_course_def ex_course2_def)
  have e2: "getAll False ''courses'' (snd (put False ''courses'' ex_course2 ex_indexed))
      = Inr (Items [ex_course2])"
    by (simp add: put_def getAll_def ex_indexed_def init_db_def new_store_def idb_put_def
        ex_course_def ex_course2_def)
  have s1: "fst (put False ''courses'' ex_course2 ex_fallback) = Inr True"
    by (simp add: put_def ex_fallback_def get_or_empty_def storage_get_def storageKeys_def Let_def)
  have s2: "fst (put False ''courses'' ex_course2 ex_indexed) = Inr True"
    by (simp add: put_def ex_indexed_def init_db_def new_store_def idb_put_def ex_course2_def)
  have ne: "PStr ''d'' \<noteq> PStr ''c''" by simp
  from C6_put_idempotent_upsert[OF k1, of False False]
       C6_put_idempotent_upsert[OF k2, of False False]
       C6_put_idempotent_upsert[OF k3, of False False]
  have a: "getAll False ''courses''
       (snd (put False ''courses'' ex_course2 (snd (put False ''courses'' (ex_course ''c'') ex_fallback))))
     = Inr (Items [ex_course2])
   \<and> getAll False ''courses''
       (snd (put False ''courses'' ex_course2 (snd (put False ''courses'' (ex_course ''c'') ex_indexed))))
     = Inr (Items [ex_course2])
   \<and> snd (put False ''courses'' (ex_course ''c'') (snd (put False ''courses'' (ex_course ''c'') ex_fallback)))
     = snd (put False ''courses'' (ex_course ''c'') ex_fallback)"
    using e1 e2 by simp
  note t4 = C6_put_idempotent_upsert[OF k4, of False False, THEN conjunct2, THEN conjunct2,
      THEN conjunct2, THEN conjunct1, THEN mp, OF s1]
  note t5 = C6_put_idempotent_upsert[OF k5, of False False, THEN conjunct2, THEN conjunct2,
      THEN conjunct2, THEN conjunct1, THEN mp, OF s2]
  have b: "getById False ''courses'' (PStr ''c'') (snd (put False ''courses'' ex_course2 ex_fallback))
     = Inr (Some ex_course2)"
    by (rule t4[THEN conjunct1])
  have c1: "getById False ''courses'' (PStr ''c'') (snd (put False ''courses'' ex_course2 ex_indexed))
     = Inr (Some ex_course2)"
    by (rule t5[THEN conjunct1])
  have c2: "getById False ''courses'' (PStr ''d'') (snd (put False ''courses'' ex_course2 ex_indexed))
     = getById False ''courses'' (PStr ''d'') ex_indexed"
    by (rule t5[THEN conjunct2, THEN conjunct2, THEN spec, THEN mp, OF ne])
  show ?thesis
    by (intro conjI) (rule a[THEN conjunct1] a[THEN conjunct2, THEN conjunct1]
        a[THEN conjunct2, THEN conjunct2] s1 b s2 c1 c2)+
qed

text \<open>
  C6 as stated, for every record, fails: a record without an identifier, put twice into
  the \<^verbatim>\<open>pendingSync\<close> store of the indexed backend, which has a key generator, is
  stored twice.
\<close>

theorem C6_put_idempotent_upsert_counterexample:
  "fst (put False ''pendingSync'' ex_keyless ex_new_indexed) = Inr True
   \<and> record_count ''pendingSync'' (snd (put False ''pendingSync'' ex_keyless ex_new_indexed)) = 1
   \<and> record_count ''pendingSync''
        (snd (put False ''pendingSync'' ex_keyless
               (snd (put False ''pendingSync'' ex_keyless ex_new_indexed)))) = 2"
  by (simp add: put_def record_count_def getAll_def ex_new_indexed_def init_db_def new_store_def
      idb_put_def ex_keyless_def)

text \<open>
  C7. The average of approaches (of putts) of a hole is present exactly when at least
  three scores of that hole carry approaches (putts), however many scores the hole has,
  and the average of throws is present from one score with throws on.
\<close>

theorem C7_detailed_average_needs_three:
  "(avgApproaches (calculateHoleStats h ss) \<noteq> None)
      = (3 \<le> length (filter (\<lambda>s. hole_id s = h \<and> valid_number (approaches s)) ss))
   \<and> (avgPutts (calculateHoleStats h ss) \<noteq> None)
      = (3 \<le> length (filter (\<lambda>s. hole_id s = h \<and> valid_number (putts s)) ss))
   \<and> (avgScore (calculateHoleStats h ss) \<noteq> None)
      = (1 \<le> length (filter (\<lambda>s. hole_id s = h \<and> valid_number (Some (throws s))) ss))"
proof (cases "filter (\<lambda>s. hole_id s = h) ss = []")
  case True
  have "calculateHoleStats h ss = \<lparr>hasData = False, roundCount = 0, avgScore = None,
      avgApproaches = None, avgPutts = None, hasEnoughApproachData = None,
      hasEnoughPuttData = None\<rparr>"
    unfolding calculateHoleStats_def Let_def using True by simp
  then show ?thesis by (simp add: filter_hole_empty[OF True])
next
  case False
  define hs where "hs = filter (\<lambda>s. hole_id s = h) ss"
  define tv where "tv = filter valid_number (map (\<lambda>s. Some (throws s)) hs)"
  define av where "av = filter valid_number (map approaches hs)"
  define pv where "pv = filter valid_number (map putts hs)"
  have ne: "length hs \<noteq> 0" using False by (simp add: hs_def)
  have c: "calculateHoleStats h ss =
     \<lparr>hasData = (length tv \<ge> minRoundsForAverage),
      roundCount = length tv,
      avgScore = (if length tv > 0 then Some (roundTo (average tv)) else None),
      avgApproaches = (if length av \<ge> minDataPointsForDetailedStats
                       then Some (roundTo (average av)) else None),
      avgPutts = (if length pv \<ge> minDataPointsForDetailedStats
                  then Some (roundTo (average pv)) else None),
      hasEnoughApproachData = Some (length av \<ge> minDataPointsForDetailedStats),
      hasEnoughPuttData = Some (length pv \<ge> minDataPointsForDetailedStats)\<rparr>"
    unfolding calculateHoleStats_def Let_def tv_def av_def pv_def hs_def[symmetric]
    using ne by (simp only: if_False)
  have a: "length av = length (filter (\<lambda>s. hole_id s = h \<and> valid_number (approaches s)) ss)"
    unfolding av_def hs_def by (rule length_filter_carrying)
  have p: "length pv = length (filter (\<lambda>s. hole_id s = h \<and> valid_number (putts s)) ss)"
    unfolding pv_def hs_def by (rule length_filter_carrying)
  have t: "length tv = length (filter (\<lambda>s. hole_id s = h \<and> valid_number (Some (throws s))) ss)"
    unfolding tv_def hs_def by (rule length_filter_carrying)
  show ?thesis
    unfolding c a[symmetric] p[symmetric] t[symmetric]
    by (simp add: minDataPointsForDetailedStats_def Suc_le_eq)
qed

theorem C7_detailed_average_needs_three_witness:
  "length (filter (\<lambda>s. hole_id s = ''hole'') ex_history) = 10
   \<and> avgApproaches (calculateHoleStats ''hole'' ex_history) = None
   \<and> avgScore (calculateHoleStats ''hole'' ex_history) \<noteq> None"
proof -
  have n: "length (filter (\<lambda>s. hole_id s = ''hole'') ex_history) = 10"
    by (simp add: ex_history_def ex_score_def)
  have c: "length (filter (\<lambda>s. hole_id s = ''hole'' \<and> valid_number (approaches s)) ex_history) = 2"
    by (simp add: ex_history_def ex_score_def)
  have t: "length (filter (\<lambda>s. hole_id s = ''hole'' \<and> valid_number (Some (throws s))) ex_history) = 10"
    by (simp add: ex_history_def ex_score_def)
  from C7_detailed_average_needs_three[of "''hole''" ex_history] n show ?thesis
    by (simp add: c t)
qed


end
